theory Spec2Isabelle
  imports Complex_Main
begin

section \<open>Errors and Python primitives\<close>

text \<open>
  The exceptions that the modelled part of \<^verbatim>\<open>mvsep.py\<close> can raise. The two channel
  checks raise \<^verbatim>\<open>ValueError("... must have 2 channels.")\<close>; the other constructors
  stand for the exceptions of the Python runtime and of the tensor library that the
  modelled statements can run into. \<open>NotANumber\<close> is no exception: samples are
  modelled as reals, which have no NaN, so a computation whose result would hold NaN
  (the mean of no element, the unbiased deviation of fewer than two) stops there with
  this value.
\<close>

datatype error =
    ChannelCountError
  | ZeroDivisionError
  | RangeStepError
  | RandintError
  | LinspaceError
  | ShapeError
  | KeyError
  | CheckpointLoadError
  | AudioLoadError
  | NotANumber

text \<open>Python's \<^verbatim>\<open>a // b\<close> and \<^verbatim>\<open>a % b\<close> on ints: floor division, as \<open>div\<close> and
  \<open>mod\<close> on \<open>int\<close>, but raising on a zero divisor.\<close>

definition py_floordiv :: "int \<Rightarrow> int \<Rightarrow> error + int" where
  "py_floordiv a b = (if b = 0 then Inl ZeroDivisionError else Inr (a div b))"

definition py_mod :: "int \<Rightarrow> int \<Rightarrow> error + int" where
  "py_mod a b = (if b = 0 then Inl ZeroDivisionError else Inr (a mod b))"

text \<open>\<^verbatim>\<open>range(start, stop, step)\<close>: the loop of a positive step, the loop of a negative
  step, and the \<^verbatim>\<open>ValueError\<close> of a zero step.\<close>

function range_up :: "int \<Rightarrow> int \<Rightarrow> int \<Rightarrow> int list" where
  "range_up i stop step =
     (if 0 < step \<and> i < stop then i # range_up (i + step) stop step else [])"
  by pat_completeness auto
termination
  by (relation "measure (\<lambda>(i, stop, step). nat (stop - i))") auto

function range_down :: "int \<Rightarrow> int \<Rightarrow> int \<Rightarrow> int list" where
  "range_down i stop step =
     (if step < 0 \<and> stop < i then i # range_down (i + step) stop step else [])"
  by pat_completeness auto
termination
  by (relation "measure (\<lambda>(i, stop, step). nat (i - stop))") auto

declare range_up.simps [simp del] range_down.simps [simp del]

definition py_range :: "int \<Rightarrow> int \<Rightarrow> int \<Rightarrow> error + int list" where
  "py_range start stop step =
     (if step = 0 then Inl RangeStepError
      else if 0 < step then Inr (range_up start stop step)
      else Inr (range_down start stop step))"

text \<open>Slicing \<^verbatim>\<open>xs[lo:hi]\<close> along one axis of length \<open>n\<close>: a negative bound counts
  from the end, and both bounds are clamped to \<open>[0, n]\<close>.\<close>

definition norm_index :: "nat \<Rightarrow> int \<Rightarrow> nat" where
  "norm_index n k = (if k < 0 then nat (max (k + int n) 0) else min (nat k) n)"

definition py_slice :: "'a list \<Rightarrow> int \<Rightarrow> int \<Rightarrow> 'a list" where
  "py_slice xs lo hi =
     (let a = norm_index (length xs) lo; b = norm_index (length xs) hi
      in take (b - a) (drop a xs))"

text \<open>Writing the elements \<open>vs\<close> back through the view \<^verbatim>\<open>xs[lo:hi]\<close>; \<open>vs\<close> has the
  length of the view.\<close>

definition set_slice :: "'a list \<Rightarrow> int \<Rightarrow> int \<Rightarrow> 'a list \<Rightarrow> 'a list" where
  "set_slice xs lo hi vs =
     (let a = norm_index (length xs) lo
      in take a xs @ vs @ drop (a + length vs) xs)"

text \<open>The right operand of an in-place operation or of a slice assignment must have the
  length of the view, or length 1 (it is then broadcast); anything else is the tensor
  library's shape error.\<close>

definition broadcast_to :: "nat \<Rightarrow> 'a list \<Rightarrow> error + 'a list" where
  "broadcast_to n ws =
     (if length ws = n then Inr ws
      else if length ws = 1 then Inr (replicate n (hd ws))
      else Inl ShapeError)"

definition inplace :: "(real \<Rightarrow> real \<Rightarrow> real) \<Rightarrow> real list \<Rightarrow> real list \<Rightarrow> error + real list" where
  "inplace f view ws =
     (case broadcast_to (length view) ws of
        Inl e \<Rightarrow> Inl e
      | Inr ws' \<Rightarrow> Inr (map2 f view ws'))"

text \<open>\<^verbatim>\<open>torch.linspace(start, end, steps)\<close> in exact arithmetic: \<open>steps\<close> evenly spaced
  points from \<open>start\<close> to \<open>end\<close> inclusive, the single point \<open>start\<close> when \<open>steps = 1\<close>,
  and an error for a negative number of steps. Samples are modelled as reals throughout;
  floating-point rounding is not modelled.\<close>

definition linspace_point :: "real \<Rightarrow> real \<Rightarrow> int \<Rightarrow> nat \<Rightarrow> real" where
  "linspace_point a b steps k = a + real k * ((b - a) / real_of_int (steps - 1))"

definition linspace :: "real \<Rightarrow> real \<Rightarrow> int \<Rightarrow> error + real list" where
  "linspace a b steps =
     (if steps < 0 then Inl LinspaceError
      else if steps = 1 then Inr [a]
      else Inr (map (linspace_point a b steps) [0..<nat steps]))"

text \<open>Running a fallible function over the channels of a tensor, stopping at the first
  error.\<close>

fun map_err :: "('a \<Rightarrow> error + 'b) \<Rightarrow> 'a list \<Rightarrow> error + 'b list" where
  "map_err f [] = Inr []"
| "map_err f (x # xs) =
     (case f x of
        Inl e \<Rightarrow> Inl e
      | Inr y \<Rightarrow> (case map_err f xs of Inl e \<Rightarrow> Inl e | Inr ys \<Rightarrow> Inr (y # ys)))"

section \<open>Chunked inference\<close>

text \<open>A waveform is a tensor of shape (channels, samples): the list of its channels.\<close>

type_synonym waveform = "real list list"

definition n_channels :: "waveform \<Rightarrow> nat" where
  "n_channels w = length w"

definition n_samples :: "waveform \<Rightarrow> nat" where
  "n_samples w = (case w of [] \<Rightarrow> 0 | c # _ \<Rightarrow> length c)"

definition zeros_like :: "waveform \<Rightarrow> waveform" where
  "zeros_like w = map (\<lambda>c. replicate (length c) 0) w"

text \<open>\<^verbatim>\<open>num_chunks = (total_length - overlap) // (chunk_size - overlap)\<close>, the total of
  the progress bar.\<close>

definition num_chunks :: "int \<Rightarrow> int \<Rightarrow> int \<Rightarrow> error + int" where
  "num_chunks total_length chunk_size overlap =
     py_floordiv (total_length - overlap) (chunk_size - overlap)"

text \<open>\<^verbatim>\<open>range(0, total_length - chunk_size + 1, chunk_size - overlap)\<close>, the chunk
  starts that the loop visits.\<close>

definition chunk_starts :: "int \<Rightarrow> int \<Rightarrow> int \<Rightarrow> error + int list" where
  "chunk_starts total_length chunk_size overlap =
     py_range 0 (total_length - chunk_size + 1) (chunk_size - overlap)"

text \<open>
  The overlap-add of one reconstructed chunk into one channel of the output buffer
  (the body of the loop from the comment \<^verbatim>\<open># Cross-fade the overlapping regions\<close> on):
  for \<open>i > 0\<close> the head of the chunk is multiplied by the fade-in ramp, the buffer region
  \<open>[i, i + cross_fade_length)\<close> is multiplied by the fade-out ramp and the faded head is
  added to it; then, for every \<open>i\<close>, the rest of the chunk is assigned to
  \<open>[i + cross_fade_length, i + chunk_size)\<close>.
\<close>

definition cross_fade :: "int \<Rightarrow> int \<Rightarrow> real list \<Rightarrow> real list \<Rightarrow> error + (real list \<times> real list)" where
  "cross_fade i cross_fade_length buf inst_chunk =
     (case linspace 0 1 cross_fade_length of
        Inl e \<Rightarrow> Inl e
      | Inr fade_in \<Rightarrow>
     (case linspace 1 0 cross_fade_length of
        Inl e \<Rightarrow> Inl e
      | Inr fade_out \<Rightarrow>
     (case inplace (*) (py_slice inst_chunk 0 cross_fade_length) fade_in of
        Inl e \<Rightarrow> Inl e
      | Inr head \<Rightarrow>
     (let inst_chunk1 = set_slice inst_chunk 0 cross_fade_length head in
     (case inplace (*) (py_slice buf i (i + cross_fade_length)) fade_out of
        Inl e \<Rightarrow> Inl e
      | Inr faded \<Rightarrow>
     (let buf1 = set_slice buf i (i + cross_fade_length) faded in
     (case inplace (+) (py_slice buf1 i (i + cross_fade_length))
                       (py_slice inst_chunk1 0 cross_fade_length) of
        Inl e \<Rightarrow> Inl e
      | Inr summed \<Rightarrow>
          Inr (set_slice buf1 i (i + cross_fade_length) summed, inst_chunk1))))))))"

definition place_rest :: "int \<Rightarrow> int \<Rightarrow> int \<Rightarrow> real list \<Rightarrow> real list \<Rightarrow> error + real list" where
  "place_rest i cross_fade_length chunk_size buf inst_chunk =
     (let view = py_slice buf (i + cross_fade_length) (i + chunk_size);
          rest = drop (norm_index (length inst_chunk) cross_fade_length) inst_chunk
      in case broadcast_to (length view) rest of
           Inl e \<Rightarrow> Inl e
         | Inr vs \<Rightarrow> Inr (set_slice buf (i + cross_fade_length) (i + chunk_size) vs))"

definition overlap_add_channel :: "int \<Rightarrow> int \<Rightarrow> int \<Rightarrow> real list \<times> real list \<Rightarrow> error + real list" where
  "overlap_add_channel i cross_fade_length chunk_size bc =
     (case bc of (buf, inst_chunk) \<Rightarrow>
        if i > 0 then
          (case cross_fade i cross_fade_length buf inst_chunk of
             Inl e \<Rightarrow> Inl e
           | Inr (buf2, inst_chunk1) \<Rightarrow> place_rest i cross_fade_length chunk_size buf2 inst_chunk1)
        else place_rest i cross_fade_length chunk_size buf inst_chunk)"

text \<open>Both tensors have the channel axis first; the operations act on each channel
  alike. The reconstructed chunk comes from the inverse transform with
  \<^verbatim>\<open>length=chunk_size\<close> and has the channels of the input.\<close>

definition overlap_add :: "int \<Rightarrow> int \<Rightarrow> int \<Rightarrow> waveform \<Rightarrow> waveform \<Rightarrow> error + waveform" where
  "overlap_add i cross_fade_length chunk_size instrumentals inst_chunk =
     (if length inst_chunk \<noteq> length instrumentals then Inl ShapeError
      else map_err (overlap_add_channel i cross_fade_length chunk_size)
             (zip instrumentals inst_chunk))"

text \<open>
  One iteration of the loop. The reconstruction of a chunk (transform, normalisation,
  model, denormalisation, inverse transform) is the numeric backend's work and is the
  parameter \<open>recon\<close>: it maps the chunk \<^verbatim>\<open>input_audio[:, i:i + chunk_size]\<close> to
  \<^verbatim>\<open>inst_chunk\<close>.
\<close>

definition chunk_step :: "(waveform \<Rightarrow> waveform) \<Rightarrow> int \<Rightarrow> int \<Rightarrow> waveform \<Rightarrow> waveform \<Rightarrow> int \<Rightarrow> error + waveform" where
  "chunk_step recon chunk_size overlap input_audio instrumentals i =
     (let chunk = map (\<lambda>c. py_slice c i (i + chunk_size)) input_audio;
          inst_chunk = recon chunk
      in overlap_add i (overlap div 2) chunk_size instrumentals inst_chunk)"

text \<open>The loop. Its state is the output buffer and the count of the progress bar, which
  \<^verbatim>\<open>pbar.update(1)\<close> advances at the end of each iteration: the number of chunks
  processed so far.\<close>

fun inference_loop :: "(waveform \<Rightarrow> waveform) \<Rightarrow> int \<Rightarrow> int \<Rightarrow> waveform \<Rightarrow> waveform \<times> int \<Rightarrow> int list \<Rightarrow> error + (waveform \<times> int)" where
  "inference_loop recon chunk_size overlap input_audio (instrumentals, pbar) [] =
     Inr (instrumentals, pbar)"
| "inference_loop recon chunk_size overlap input_audio (instrumentals, pbar) (i # rest) =
     (case chunk_step recon chunk_size overlap input_audio instrumentals i of
        Inl e \<Rightarrow> Inl e
      | Inr instrumentals' \<Rightarrow>
          inference_loop recon chunk_size overlap input_audio (instrumentals', pbar + 1) rest)"

definition clamp :: "real \<Rightarrow> real \<Rightarrow> real \<Rightarrow> real" where
  "clamp lo hi x = min hi (max lo x)"

text \<open>
  \<^verbatim>\<open>inference\<close>: the checkpoint is loaded first (\<open>checkpoint\<close> is the outcome of
  \<^verbatim>\<open>torch.load\<close>, and \<open>recon\<close> the reconstruction with the weights it holds), then
  the input audio (\<open>audio\<close> is the outcome of \<^verbatim>\<open>torchaudio.load\<close>), whose channel count
  is checked before anything else is computed. The result is the waveform handed to
  \<^verbatim>\<open>torchaudio.save\<close>, with the final count of the progress bar.
\<close>

definition inference :: "error + 'w \<Rightarrow> ('w \<Rightarrow> waveform \<Rightarrow> waveform) \<Rightarrow> error + waveform \<Rightarrow> int \<Rightarrow> int \<Rightarrow> error + (waveform \<times> int)" where
  "inference checkpoint recon audio chunk_size overlap =
     (case checkpoint of
        Inl e \<Rightarrow> Inl e
      | Inr weights \<Rightarrow>
     (case audio of
        Inl e \<Rightarrow> Inl e
      | Inr input_audio \<Rightarrow>
          if n_channels input_audio \<noteq> 2 then Inl ChannelCountError
          else
            (let total_length = int (n_samples input_audio) in
             case num_chunks total_length chunk_size overlap of
               Inl e \<Rightarrow> Inl e
             | Inr n \<Rightarrow>
            (case chunk_starts total_length chunk_size overlap of
               Inl e \<Rightarrow> Inl e
             | Inr starts \<Rightarrow>
            (case inference_loop (recon weights) chunk_size overlap input_audio
                    (zeros_like input_audio, 0) starts of
               Inl e \<Rightarrow> Inl e
             | Inr (instrumentals, pbar) \<Rightarrow>
                 Inr (map (map (clamp (-1) 1)) instrumentals, pbar))))))"

section \<open>Normalisation of magnitude spectrograms\<close>

text \<open>A real spectrogram has shape (channels, frequency bins, time frames); a complex
  one likewise.\<close>

type_synonym spec_real = "real list list list"
type_synonym spec_complex = "complex list list list"

definition map3 :: "('a \<Rightarrow> 'b) \<Rightarrow> 'a list list list \<Rightarrow> 'b list list list" where
  "map3 f = map (map (map f))"

definition n_frames :: "'a list list list \<Rightarrow> nat" where
  "n_frames s = (case s of [] \<Rightarrow> 0 | c # _ \<Rightarrow> (case c of [] \<Rightarrow> 0 | r # _ \<Rightarrow> length r))"

definition epsilon :: real where
  "epsilon = 1 / 10 ^ 8"

text \<open>\<^verbatim>\<open>x.mean(dim=(1, 2), keepdim=True)\<close> and \<^verbatim>\<open>x.std(dim=(1, 2), keepdim=True)\<close>
  for one channel: the statistics over frequency and time jointly. The deviation is the
  tensor library's default, with Bessel's correction. \<open>None\<close> is NaN.\<close>

definition tensor_mean :: "real list list \<Rightarrow> real option" where
  "tensor_mean c =
     (let xs = concat c
      in if xs = [] then None else Some (sum_list xs / real (length xs)))"

definition tensor_std :: "real list list \<Rightarrow> real option" where
  "tensor_std c =
     (let xs = concat c; n = length xs
      in if n < 2 then None
         else (let m = sum_list xs / real n
               in Some (sqrt (sum_list (map (\<lambda>x. (x - m)\<^sup>2) xs) / (real n - 1)))))"

text \<open>\<^verbatim>\<open>(mag - mean) / (std + 1e-8)\<close>, returning the statistics with the result.\<close>

definition normalize_channel :: "real list list \<Rightarrow> (real list list \<times> real \<times> real) option" where
  "normalize_channel c =
     (case tensor_mean c of
        None \<Rightarrow> None
      | Some m \<Rightarrow>
     (case tensor_std c of
        None \<Rightarrow> None
      | Some s \<Rightarrow> Some (map (map (\<lambda>x. (x - m) / (s + epsilon))) c, m, s)))"

definition normalize :: "spec_real \<Rightarrow> (real list list \<times> real \<times> real) list option" where
  "normalize mag = those (map normalize_channel mag)"

section \<open>The dataset\<close>

text \<open>\<^verbatim>\<open>torch.randint(low, high, (1,))\<close>: some integer of \<open>[low, high)\<close>, and an error
  when that range is empty. The generator is modelled by a seed: every seed gives one
  value of the range, and every value of the range comes from some seed.\<close>

definition randint :: "nat \<Rightarrow> int \<Rightarrow> int \<Rightarrow> error + int" where
  "randint seed low high =
     (if low < high then Inr (low + int seed mod (high - low)) else Inl RandintError)"

text \<open>\<^verbatim>\<open>F.pad(x, (0, k))\<close> on the last axis: \<open>k\<close> zeros appended, or \<open>-k\<close> entries
  cropped for a negative \<open>k\<close>.\<close>

definition pad_last :: "int \<Rightarrow> real list \<Rightarrow> real list" where
  "pad_last k r = (if 0 \<le> k then r @ replicate (nat k) 0 else take (length r - nat (- k)) r)"

text \<open>The block \<^verbatim>\<open># Optionally segment the signals\<close>. The frame counts are read off
  each tensor as the source does.\<close>

definition segment_specs :: "bool \<Rightarrow> int \<Rightarrow> int \<Rightarrow> nat \<Rightarrow> spec_real \<Rightarrow> spec_real \<Rightarrow> error + (spec_real \<times> spec_real)" where
  "segment_specs segment segment_length hop_length seed mixture_spec vocals_spec =
     (if segment \<and> segment_length \<noteq> 0 then
        (case py_floordiv segment_length hop_length of
           Inl e \<Rightarrow> Inl e
         | Inr seg_frames \<Rightarrow>
             if int (n_frames mixture_spec) \<ge> seg_frames then
               (case randint seed 0 (int (n_frames mixture_spec) - seg_frames) of
                  Inl e \<Rightarrow> Inl e
                | Inr start \<Rightarrow>
                    Inr (map (map (\<lambda>r. py_slice r start (start + seg_frames))) mixture_spec,
                         map (map (\<lambda>r. py_slice r start (start + seg_frames))) vocals_spec))
             else
               Inr (map (map (pad_last (seg_frames - int (n_frames mixture_spec)))) mixture_spec,
                    map (map (pad_last (seg_frames - int (n_frames vocals_spec)))) vocals_spec))
      else Inr (mixture_spec, vocals_spec))"

definition magnitude_normalized :: "spec_complex \<Rightarrow> error + spec_real" where
  "magnitude_normalized spec =
     (case normalize (map3 cmod spec) of
        None \<Rightarrow> Inl NotANumber
      | Some xs \<Rightarrow> Inr (map fst xs))"

text \<open>
  \<^verbatim>\<open>MUSDBDataset.__getitem__\<close>. The two files are loaded (\<open>mixture_file\<close> and
  \<open>vocals_file\<close> are the outcomes of \<^verbatim>\<open>torchaudio.load\<close>), their channel counts are
  checked, both are cut to the shorter length, transformed (\<open>stft\<close> is the backend's
  transform with the dataset's window; its real view always has a last axis of size 2,
  so the check on that axis never fires and is left out), turned into magnitudes,
  normalised and segmented.
\<close>

definition getitem :: "(waveform \<Rightarrow> spec_complex) \<Rightarrow> bool \<Rightarrow> int \<Rightarrow> int \<Rightarrow> nat \<Rightarrow> error + waveform \<Rightarrow> error + waveform \<Rightarrow> error + (spec_real \<times> spec_real \<times> waveform \<times> waveform)" where
  "getitem stft segment segment_length hop_length seed mixture_file vocals_file =
     (case mixture_file of
        Inl e \<Rightarrow> Inl e
      | Inr mixture0 \<Rightarrow>
     (case vocals_file of
        Inl e \<Rightarrow> Inl e
      | Inr vocals0 \<Rightarrow>
          if n_channels mixture0 \<noteq> 2 \<or> n_channels vocals0 \<noteq> 2 then Inl ChannelCountError
          else
            (let min_length = min (n_samples mixture0) (n_samples vocals0);
                 mixture = map (take min_length) mixture0;
                 vocals = map (take min_length) vocals0
             in case magnitude_normalized (stft mixture) of
                  Inl e \<Rightarrow> Inl e
                | Inr mixture_spec \<Rightarrow>
                (case magnitude_normalized (stft vocals) of
                   Inl e \<Rightarrow> Inl e
                 | Inr vocals_spec \<Rightarrow>
                 (case segment_specs segment segment_length hop_length seed mixture_spec vocals_spec of
                    Inl e \<Rightarrow> Inl e
                  | Inr (mixture_seg, vocals_seg) \<Rightarrow>
                      Inr (mixture_seg, vocals_seg, mixture, vocals))))))"

section \<open>Training\<close>

text \<open>\<^verbatim>\<open>torch.angle\<close> of a real tensor: 0 for a non-negative entry, \<open>\<pi>\<close> for a
  negative one.\<close>

definition angle_real :: "real \<Rightarrow> real" where
  "angle_real x = (if x < 0 then pi else 0)"

text \<open>The targets of one training step, computed from the \<^verbatim>\<open>vocals_spec\<close> that the
  dataset returned: \<^verbatim>\<open>torch.abs(vocals_spec)\<close> and \<^verbatim>\<open>torch.angle(vocals_spec)\<close>.\<close>

definition target_mag :: "spec_real \<Rightarrow> spec_real" where
  "target_mag vocals_spec = map3 abs vocals_spec"

definition target_phase :: "spec_real \<Rightarrow> spec_real" where
  "target_phase vocals_spec = map3 angle_real vocals_spec"

definition mean3 :: "spec_real \<Rightarrow> real" where
  "mean3 t = (let xs = concat (concat t) in sum_list xs / real (length xs))"

definition sq_diff :: "spec_real \<Rightarrow> spec_real \<Rightarrow> spec_real" where
  "sq_diff a b = map2 (map2 (map2 (\<lambda>x y. (x - y)\<^sup>2))) a b"

definition loss_fn :: "spec_real \<Rightarrow> spec_real \<Rightarrow> spec_real \<Rightarrow> spec_real \<Rightarrow> real" where
  "loss_fn pred_mag pred_phase tgt_mag tgt_phase =
     (let mag_loss = mean3 (sq_diff pred_mag tgt_mag);
          phase_loss = mean3 (sq_diff pred_phase tgt_phase)
      in mag_loss + phase_loss)"

text \<open>The state that the loop of \<^verbatim>\<open>train\<close> carries, and the checkpoint: a dictionary
  from field names to values.\<close>

record ('m, 'o) train_state =
  step :: int
  avg_loss :: real
  loss_log :: "real list"
  model_state :: 'm
  optimizer_state :: 'o

datatype ('m, 'o) pyvalue =
    VInt int
  | VFloat real
  | VFloats "real list"
  | VModel 'm
  | VOptim 'o

type_synonym ('m, 'o) pydict = "string \<rightharpoonup> ('m, 'o) pyvalue"

definition checkpoint_of :: "('m, 'o) train_state \<Rightarrow> ('m, 'o) pydict" where
  "checkpoint_of st =
     [''step'' \<mapsto> VInt (step st),
      ''model_state_dict'' \<mapsto> VModel (model_state st),
      ''optimizer_state_dict'' \<mapsto> VOptim (optimizer_state st),
      ''avg_loss'' \<mapsto> VFloat (avg_loss st),
      ''loss_log'' \<mapsto> VFloats (loss_log st)]"

text \<open>The decimal text of an integer, for \<^verbatim>\<open>f"checkpoint_step_{step}.pt"\<close>.\<close>

fun str_nat :: "nat \<Rightarrow> string" where
  "str_nat n =
     (if n < 10 then [char_of (48 + n)]
      else str_nat (n div 10) @ [char_of (48 + n mod 10)])"

declare str_nat.simps [simp del]

definition str_int :: "int \<Rightarrow> string" where
  "str_int k = (if k < 0 then CHR ''-'' # str_nat (nat (- k)) else str_nat (nat k))"

definition checkpoint_name :: "int \<Rightarrow> string" where
  "checkpoint_name k = ''checkpoint_step_'' @ str_int k @ ''.pt''"

text \<open>The resume block: the five entries are read in the source's order; a missing
  key is Python's \<^verbatim>\<open>KeyError\<close>. An entry of another kind than the one that was saved
  cannot be stored in the typed state and is reported as a load error.\<close>

definition resume :: "('m, 'o) pydict \<Rightarrow> error + ('m, 'o) train_state" where
  "resume checkpoint =
     (case checkpoint ''model_state_dict'' of
        None \<Rightarrow> Inl KeyError
      | Some v1 \<Rightarrow>
     (case checkpoint ''optimizer_state_dict'' of
        None \<Rightarrow> Inl KeyError
      | Some v2 \<Rightarrow>
     (case checkpoint ''step'' of
        None \<Rightarrow> Inl KeyError
      | Some v3 \<Rightarrow>
     (case checkpoint ''avg_loss'' of
        None \<Rightarrow> Inl KeyError
      | Some v4 \<Rightarrow>
     (case checkpoint ''loss_log'' of
        None \<Rightarrow> Inl KeyError
      | Some v5 \<Rightarrow>
     (case (v1, v2, v3, v4, v5) of
        (VModel m, VOptim opt, VInt k, VFloat a, VFloats l) \<Rightarrow>
          Inr \<lparr>step = k, avg_loss = a, loss_log = l, model_state = m, optimizer_state = opt\<rparr>
      | _ \<Rightarrow> Inl CheckpointLoadError))))))"

text \<open>
  One iteration of the training loop on the batch \<open>(mixture_spec, vocals_spec)\<close>. The
  forward pass \<open>forward\<close> and the parameter update \<open>optimise\<close> (backward pass, scaler,
  optimiser and scheduler) are the backend's; the loss, the running average, the log,
  the step counter and the checkpoint are the source's. The files written are
  collected in order.
\<close>

type_synonym ('m, 'o) files = "(string \<times> ('m, 'o) pydict) list"

definition train_step :: "('m \<Rightarrow> spec_real \<Rightarrow> spec_real \<times> spec_real) \<Rightarrow> ('m \<Rightarrow> 'o \<Rightarrow> spec_real \<Rightarrow> spec_real \<Rightarrow> spec_real \<Rightarrow> 'm \<times> 'o) \<Rightarrow> ('m, 'o) train_state \<Rightarrow> spec_real \<times> spec_real \<Rightarrow> ('m, 'o) train_state" where
  "train_step forward optimise st batch =
     (case batch of (mixture_spec, vocals_spec) \<Rightarrow>
        (let tgt_mag = target_mag vocals_spec;
             tgt_phase = target_phase vocals_spec;
             (pred_mag, pred_phase) = forward (model_state st) mixture_spec;
             loss = loss_fn pred_mag pred_phase tgt_mag tgt_phase;
             (m', o') = optimise (model_state st) (optimizer_state st) mixture_spec tgt_mag tgt_phase
         in \<lparr>step = step st + 1,
             avg_loss = (avg_loss st * real_of_int (step st) + loss) / real_of_int (step st + 1),
             loss_log = loss_log st @ [loss],
             model_state = m',
             optimizer_state = o'\<rparr>))"

text \<open>The state of a run from scratch: \<^verbatim>\<open>step = 0\<close>, \<^verbatim>\<open>avg_loss = 0.0\<close>,
  \<^verbatim>\<open>loss_log = []\<close>, and the model and optimiser that were passed in.\<close>

definition initial_state :: "'m \<Rightarrow> 'o \<Rightarrow> ('m, 'o) train_state" where
  "initial_state model optimizer =
     \<lparr>step = 0, avg_loss = 0, loss_log = [], model_state = model, optimizer_state = optimizer\<rparr>"

fun train_loop :: "('m \<Rightarrow> spec_real \<Rightarrow> spec_real \<times> spec_real) \<Rightarrow> ('m \<Rightarrow> 'o \<Rightarrow> spec_real \<Rightarrow> spec_real \<Rightarrow> spec_real \<Rightarrow> 'm \<times> 'o) \<Rightarrow> int \<Rightarrow> ('m, 'o) train_state \<Rightarrow> ('m, 'o) files \<Rightarrow> (spec_real \<times> spec_real) list \<Rightarrow> ('m, 'o) files \<times> (error + ('m, 'o) train_state)" where
  "train_loop forward optimise checkpoint_steps st files [] = (files, Inr st)"
| "train_loop forward optimise checkpoint_steps st files (batch # rest) =
     (let st' = train_step forward optimise st batch
      in case py_mod (step st') checkpoint_steps of
           Inl e \<Rightarrow> (files, Inl e)
         | Inr r \<Rightarrow>
             if r = 0 then
               train_loop forward optimise checkpoint_steps st'
                 (files @ [(checkpoint_name (step st'), checkpoint_of st')]) rest
             else train_loop forward optimise checkpoint_steps st' files rest)"

text \<open>
  \<^verbatim>\<open>train\<close>: \<open>checkpoint_path\<close> is \<open>None\<close>, or the outcome of \<^verbatim>\<open>torch.load\<close> on the
  path; \<open>batches\<close> are the batches of all epochs in the order the loader yields them.
  The result is the list of files written and the final state or the error. The loss log
  is written at the end of a run that did not fail.
\<close>

definition train :: "('m \<Rightarrow> spec_real \<Rightarrow> spec_real \<times> spec_real) \<Rightarrow> ('m \<Rightarrow> 'o \<Rightarrow> spec_real \<Rightarrow> spec_real \<Rightarrow> spec_real \<Rightarrow> 'm \<times> 'o) \<Rightarrow> 'm \<Rightarrow> 'o \<Rightarrow> (spec_real \<times> spec_real) list \<Rightarrow> int \<Rightarrow> (error + ('m, 'o) pydict) option \<Rightarrow> ('m, 'o) files \<times> (error + ('m, 'o) train_state)" where
  "train forward optimise model optimizer batches checkpoint_steps checkpoint_path =
     (let init = (case checkpoint_path of
                    None \<Rightarrow> Inr (initial_state model optimizer)
                  | Some loaded \<Rightarrow> (case loaded of Inl e \<Rightarrow> Inl e | Inr checkpoint \<Rightarrow> resume checkpoint))
      in case init of
           Inl e \<Rightarrow> ([], Inl e)
         | Inr st0 \<Rightarrow>
           (case train_loop forward optimise checkpoint_steps st0 [] batches of
              (files, Inl e) \<Rightarrow> (files, Inl e)
            | (files, Inr st) \<Rightarrow>
                (files @ [(''loss_log.pt'', [''loss_log'' \<mapsto> VFloats (loss_log st)])], Inr st)))"

text \<open>The states of the loop after each batch, in order: what \<^verbatim>\<open>train\<close> holds when it
  reaches the checkpoint test of that iteration.\<close>

fun trajectory :: "('m \<Rightarrow> spec_real \<Rightarrow> spec_real \<times> spec_real) \<Rightarrow> ('m \<Rightarrow> 'o \<Rightarrow> spec_real \<Rightarrow> spec_real \<Rightarrow> spec_real \<Rightarrow> 'm \<times> 'o) \<Rightarrow> ('m, 'o) train_state \<Rightarrow> (spec_real \<times> spec_real) list \<Rightarrow> ('m, 'o) train_state list" where
  "trajectory forward optimise st [] = []"
| "trajectory forward optimise st (batch # rest) =
     train_step forward optimise st batch
       # trajectory forward optimise (train_step forward optimise st batch) rest"

section \<open>The command line\<close>

record args =
  arg_train :: bool
  arg_infer :: bool
  arg_data_dir :: string
  arg_epochs :: int
  arg_checkpoint_steps :: int
  arg_checkpoint_path :: "string option"
  arg_input_wav :: "string option"
  arg_output_instrumental :: string



section \<open>Properties of the Python primitives\<close>

lemma range_up_unfold: "0 < d \<Longrightarrow> i < stop \<Longrightarrow> range_up i stop d = i # range_up (i + d) stop d"
  by (subst range_up.simps) simp

lemma range_up_empty: "\<not> (0 < d \<and> i < stop) \<Longrightarrow> range_up i stop d = []"
  by (subst range_up.simps) simp

lemma div_shift: "0 < (s::int) \<Longrightarrow> (x + s) div s = x div s + 1"
  by simp

lemma range_up_length:
  "0 < d \<Longrightarrow> length (range_up i stop d) = nat ((stop - i + d - 1) div d)"
proof (induction i stop d rule: range_up.induct)
  case (1 i stop d)
  show ?case
  proof (cases "i < stop")
    case True
    have "stop - i + d - 1 = (stop - (i + d) + d - 1) + d" by simp
    then have eq: "(stop - i + d - 1) div d = (stop - (i + d) + d - 1) div d + 1"
      using 1(2) div_shift by presburger
    have nonneg: "0 \<le> (stop - (i + d) + d - 1) div d"
      using True 1(2) by (simp add: pos_imp_zdiv_nonneg_iff)
    have IH: "length (range_up (i + d) stop d) = nat ((stop - (i + d) + d - 1) div d)"
      using 1(1) True 1(2) by simp
    show ?thesis
      unfolding range_up_unfold[OF 1(2) True] eq using IH nonneg by (simp add: nat_add_distrib)
  next
    case False
    then have "stop - i + d - 1 < d" by simp
    then have "(stop - i + d - 1) div d \<le> 0"
      using 1(2) by (smt (verit) div_pos_pos_trivial div_nonpos_pos_le0)
    with False show ?thesis
      by (simp add: range_up_empty)
  qed
qed

lemma range_up_nth:
  "0 < d \<Longrightarrow> k < length (range_up i stop d) \<Longrightarrow> range_up i stop d ! k = i + int k * d"
proof (induction k arbitrary: i)
  case 0
  then have "i < stop" using range_up_empty[of d i stop] by fastforce
  then show ?case using 0 by (simp add: range_up_unfold)
next
  case (Suc k)
  then have lt: "i < stop" using range_up_empty[of d i stop] by fastforce
  then have unfold: "range_up i stop d = i # range_up (i + d) stop d"
    using Suc.prems(1) by (rule range_up_unfold[rotated])
  then have "k < length (range_up (i + d) stop d)"
    using Suc.prems(2) by simp
  then have "range_up (i + d) stop d ! k = i + d + int k * d"
    using Suc.IH Suc.prems(1) by blast
  then show ?case unfolding unfold by (simp add: algebra_simps)
qed

lemma range_up_eq_map:
  "0 < d \<Longrightarrow> range_up i stop d = map (\<lambda>k. i + int k * d) [0..<length (range_up i stop d)]"
  by (rule nth_equalityI) (simp_all add: range_up_nth)

lemma range_up_bounds:
  "x \<in> set (range_up i stop d) \<Longrightarrow> i \<le> x \<and> x < stop"
proof (induction i stop d rule: range_up.induct)
  case (1 i stop d)
  show ?case
  proof (cases "0 < d \<and> i < stop")
    case True
    then have unfold: "range_up i stop d = i # range_up (i + d) stop d"
      by (simp add: range_up_unfold)
    from 1(2) have "x = i \<or> x \<in> set (range_up (i + d) stop d)"
      unfolding unfold by simp
    then show ?thesis
    proof
      assume "x = i" then show ?thesis using True by simp
    next
      assume "x \<in> set (range_up (i + d) stop d)"
      then have "i + d \<le> x \<and> x < stop" using 1(1) True by blast
      then show ?thesis using True by simp
    qed
  next
    case False
    then have "range_up i stop d = []"
      by (rule range_up_empty)
    with 1(2) show ?thesis by simp
  qed
qed

section \<open>The overlap-add step inside the buffer\<close>

lemma norm_index_nat [simp]: "norm_index n (int k) = min k n"
  by (simp add: norm_index_def)

lemma py_slice_nat: "py_slice xs (int a) (int b) = take (min b (length xs) - min a (length xs)) (drop (min a (length xs)) xs)"
  by (simp add: py_slice_def Let_def)

lemma set_slice_nat: "set_slice xs (int a) hi vs = take (min a (length xs)) xs @ vs @ drop (min a (length xs) + length vs) xs"
  by (simp add: set_slice_def Let_def)

lemma broadcast_to_same: "length ws = n \<Longrightarrow> broadcast_to n ws = Inr ws"
  by (simp add: broadcast_to_def)

lemma inplace_same: "length ws = length view \<Longrightarrow> inplace f view ws = Inr (map2 f view ws)"
  by (simp add: inplace_def broadcast_to_same)


lemma linspace_nat: "linspace a b (int c) = Inr (map (linspace_point a b (int c)) [0..<c])"
proof (cases "c = 1")
  case True
  then show ?thesis by (simp add: linspace_def linspace_point_def)
next
  case False
  have "real_of_int (int c - 1) = real c - 1" by simp
  then show ?thesis using False unfolding linspace_def linspace_point_def by simp
qed

lemma map2_take_drop_map:
  assumes "a + c \<le> length xs"
  shows "map2 f (take c (drop a xs)) (map g [0..<c]) = map (\<lambda>k. f (xs ! (a + k)) (g k)) [0..<c]"
  using assms by (intro nth_equalityI) simp_all

lemma cross_fade_normal:
  assumes "a + c \<le> length buf" "c \<le> length chunk"
  shows "cross_fade (int a) (int c) buf chunk =
     Inr (take a buf @ map (\<lambda>k. buf ! (a + k) * linspace_point 1 0 (int c) k + chunk ! k * linspace_point 0 1 (int c) k) [0..<c] @ drop (a + c) buf,
          map (\<lambda>k. chunk ! k * linspace_point 0 1 (int c) k) [0..<c] @ drop c chunk)"
proof -
  have a_le: "min a (length buf) = a" and ac_le: "min (a + c) (length buf) = a + c"
    and c_le: "min c (length chunk) = c"
    using assms by simp_all
  have head: "inplace (*) (py_slice chunk 0 (int c)) (map (linspace_point 0 1 (int c)) [0..<c])
      = Inr (map (\<lambda>k. chunk ! k * linspace_point 0 1 (int c) k) [0..<c])"
  proof -
    have "py_slice chunk 0 (int c) = take c (drop 0 chunk)"
      using py_slice_nat[of chunk 0 c] c_le by simp
    moreover have "map2 (*) (take c (drop 0 chunk)) (map (linspace_point 0 1 (int c)) [0..<c]) = map (\<lambda>k. chunk ! (0 + k) * linspace_point 0 1 (int c) k) [0..<c]"
      using assms(2) by (intro map2_take_drop_map) simp
    ultimately show ?thesis using assms(2) by (simp add: inplace_same)
  qed
  define chunk1 where "chunk1 = map (\<lambda>k. chunk ! k * linspace_point 0 1 (int c) k) [0..<c] @ drop c chunk"
  have chunk1: "set_slice chunk 0 (int c) (map (\<lambda>k. chunk ! k * linspace_point 0 1 (int c) k) [0..<c]) = chunk1"
    using set_slice_nat[of chunk 0] by (simp add: chunk1_def)
  have view: "py_slice buf (int a) (int a + int c) = take c (drop a buf)"
    using py_slice_nat[of buf a "a + c"] a_le ac_le by simp
  have faded: "inplace (*) (py_slice buf (int a) (int a + int c)) (map (linspace_point 1 0 (int c)) [0..<c])
      = Inr (map (\<lambda>k. buf ! (a + k) * linspace_point 1 0 (int c) k) [0..<c])"
    unfolding view using assms(1) by (simp add: inplace_same map2_take_drop_map)
  define buf1 where "buf1 = take a buf @ map (\<lambda>k. buf ! (a + k) * linspace_point 1 0 (int c) k) [0..<c] @ drop (a + c) buf"
  have buf1: "set_slice buf (int a) (int a + int c) (map (\<lambda>k. buf ! (a + k) * linspace_point 1 0 (int c) k) [0..<c]) = buf1"
    using set_slice_nat[of buf a] a_le by (simp add: buf1_def)
  have len1: "length buf1 = length buf" using assms(1) by (simp add: buf1_def)
  have view1: "py_slice buf1 (int a) (int a + int c) = map (\<lambda>k. buf ! (a + k) * linspace_point 1 0 (int c) k) [0..<c]"
  proof -
    have "py_slice buf1 (int a) (int a + int c) = take c (drop a buf1)"
      using py_slice_nat[of buf1 a "a + c"] a_le ac_le len1 by simp
    also have "\<dots> = map (\<lambda>k. buf ! (a + k) * linspace_point 1 0 (int c) k) [0..<c]"
      using assms(1) by (simp add: buf1_def)
    finally show ?thesis .
  qed
  have head1: "py_slice chunk1 0 (int c) = map (\<lambda>k. chunk ! k * linspace_point 0 1 (int c) k) [0..<c]"
  proof -
    have "length chunk1 = length chunk" using assms(2) by (simp add: chunk1_def)
    then have "py_slice chunk1 0 (int c) = take c chunk1"
      using py_slice_nat[of chunk1 0 c] c_le by simp
    then show ?thesis by (simp add: chunk1_def)
  qed
  have summed: "inplace (+) (py_slice buf1 (int a) (int a + int c)) (py_slice chunk1 0 (int c))
      = Inr (map (\<lambda>k. buf ! (a + k) * linspace_point 1 0 (int c) k + chunk ! k * linspace_point 0 1 (int c) k) [0..<c])"
    unfolding view1 head1 by (simp add: inplace_same) (intro nth_equalityI; simp)
  have final: "set_slice buf1 (int a) (int a + int c) (map (\<lambda>k. buf ! (a + k) * linspace_point 1 0 (int c) k + chunk ! k * linspace_point 0 1 (int c) k) [0..<c])
      = take a buf @ map (\<lambda>k. buf ! (a + k) * linspace_point 1 0 (int c) k + chunk ! k * linspace_point 0 1 (int c) k) [0..<c] @ drop (a + c) buf"
    using set_slice_nat[of buf1 a] a_le len1 assms(1) by (simp add: buf1_def)
  show ?thesis
    unfolding cross_fade_def linspace_nat
    by (simp only: sum.case head Let_def chunk1 faded buf1 summed final) (simp add: chunk1_def)
qed

lemma place_rest_normal:
  assumes "a + n \<le> length buf" "c \<le> n" "length chunk = n"
  shows "place_rest (int a) (int c) (int n) buf chunk = Inr (take (a + c) buf @ drop c chunk @ drop (a + n) buf)"
proof -
  have view: "py_slice buf (int a + int c) (int a + int n) = take (n - c) (drop (a + c) buf)"
    using py_slice_nat[of buf "a + c" "a + n"] assms by simp
  have len: "length (take (n - c) (drop (a + c) buf)) = n - c" using assms by simp
  have rest: "drop (norm_index (length chunk) (int c)) chunk = drop c chunk" using assms by simp
  have bc: "broadcast_to (n - c) (drop c chunk) = Inr (drop c chunk)"
    using assms by (simp add: broadcast_to_same)
  have setv: "set_slice buf (int a + int c) (int a + int n) (drop c chunk) = take (a + c) buf @ drop c chunk @ drop (a + n) buf"
    using set_slice_nat[of buf "a + c"] assms by simp
  show ?thesis
    unfolding place_rest_def Let_def view len rest bc by (simp add: setv)
qed

lemma overlap_add_channel_first:
  assumes "n \<le> length buf" "c \<le> n" "length chunk = n"
  shows "overlap_add_channel 0 (int c) (int n) (buf, chunk) = Inr (take c buf @ drop c chunk @ drop n buf)"
  using place_rest_normal[of 0 n buf c chunk] assms by (simp add: overlap_add_channel_def)

lemma overlap_add_channel_later:
  assumes "0 < a" "a + n \<le> length buf" "c \<le> n" "length chunk = n"
  shows "overlap_add_channel (int a) (int c) (int n) (buf, chunk) =
     Inr (take a buf @ map (\<lambda>k. buf ! (a + k) * linspace_point 1 0 (int c) k + chunk ! k * linspace_point 0 1 (int c) k) [0..<c]
          @ drop c chunk @ drop (a + n) buf)"
proof -
  define mix where "mix = map (\<lambda>k. buf ! (a + k) * linspace_point 1 0 (int c) k + chunk ! k * linspace_point 0 1 (int c) k) [0..<c]"
  define buf2 where "buf2 = take a buf @ mix @ drop (a + c) buf"
  define chunk1 where "chunk1 = map (\<lambda>k. chunk ! k * linspace_point 0 1 (int c) k) [0..<c] @ drop c chunk"
  have cf: "cross_fade (int a) (int c) buf chunk = Inr (buf2, chunk1)"
    using cross_fade_normal[of a c buf chunk] assms by (simp add: buf2_def chunk1_def mix_def)
  have len2: "length buf2 = length buf" using assms by (simp add: buf2_def mix_def)
  have len1: "length chunk1 = n" using assms by (simp add: chunk1_def)
  have pr: "place_rest (int a) (int c) (int n) buf2 chunk1 = Inr (take (a + c) buf2 @ drop c chunk1 @ drop (a + n) buf2)"
    using place_rest_normal[of a n buf2 c chunk1] assms len2 len1 by simp
  have t: "take (a + c) buf2 = take a buf @ mix"
    using assms by (simp add: buf2_def mix_def)
  have d1: "drop c chunk1 = drop c chunk" by (simp add: chunk1_def)
  have d2: "drop (a + n) buf2 = drop (a + n) buf"
  proof -
    have "a + n = (a + c) + (n - c)" using assms by simp
    then have "drop ((a + c) + (n - c)) buf = drop (a + n) buf" by simp
    moreover have "drop (a + n) buf2 = drop ((a + c) + (n - c)) buf"
      using assms by (simp add: buf2_def mix_def ac_simps)
    ultimately show ?thesis by simp
  qed
  show ?thesis
    using assms(1) by (simp add: overlap_add_channel_def cf pr t d1 d2 mix_def add.commute)
qed

lemma map_err_all:
  "(\<And>x. x \<in> set xs \<Longrightarrow> f x = Inr (g x)) \<Longrightarrow> map_err f xs = Inr (map g xs)"
  by (induction xs) simp_all

lemma linspace_point_sum: "linspace_point 0 1 (int c) k + linspace_point 1 0 (int c) k = 1"
  by (simp add: linspace_point_def field_simps)

lemma linspace_point_in_nonneg: "k < c \<Longrightarrow> 0 \<le> linspace_point 0 1 (int c) k"
  by (cases "c = 1") (simp_all add: linspace_point_def)

lemma linspace_point_in_le1: "k < c \<Longrightarrow> linspace_point 0 1 (int c) k \<le> 1"
  by (cases "c = 1") (simp_all add: linspace_point_def)

lemma linspace_point_in_linear: "linspace_point 0 1 (int c) k * (real c - 1) = (if c = 1 then 0 else real k)"
  by (simp add: linspace_point_def)

section \<open>Inputs shorter than one chunk\<close>

lemma clamp_zero: "clamp (- 1) 1 0 = 0"
  by (simp add: clamp_def)

lemma zeros_like_clamped: "map (map (clamp (- 1) 1)) (zeros_like w) = zeros_like w"
  by (simp add: zeros_like_def clamp_zero)

lemma chunk_starts_short:
  assumes "total_length < chunk_size" "overlap < chunk_size"
  shows "chunk_starts total_length chunk_size overlap = Inr []"
  using assms by (simp add: chunk_starts_def py_range_def range_up_empty)

text \<open>
  Claim C10. For a 2-channel input whose length is strictly less than \<open>chunk_size\<close>
  (with a positive stride, \<open>overlap < chunk_size\<close>), the loop visits no chunk start, the
  progress bar stays at 0 chunks, and \<^verbatim>\<open>inference\<close> returns without error the zero
  waveform of the input's shape: as many channels, each of the input's length, every sample
  zero.
\<close>

theorem short_input_gives_silence:
  assumes "n_channels input_audio = 2"
    and "int (n_samples input_audio) < chunk_size"
    and "overlap < chunk_size"
  shows "chunk_starts (int (n_samples input_audio)) chunk_size overlap = Inr []
       \<and> inference (Inr weights) recon (Inr input_audio) chunk_size overlap
           = Inr (zeros_like input_audio, 0)
       \<and> map length (zeros_like input_audio) = map length input_audio
       \<and> (\<forall>c \<in> set (zeros_like input_audio). \<forall>x \<in> set c. x = 0)"
proof -
  have starts: "chunk_starts (int (n_samples input_audio)) chunk_size overlap = Inr []"
    using assms(2,3) by (rule chunk_starts_short)
  have nc: "num_chunks (int (n_samples input_audio)) chunk_size overlap
      = Inr ((int (n_samples input_audio) - overlap) div (chunk_size - overlap))"
    using assms(3) by (simp add: num_chunks_def py_floordiv_def)
  have run: "inference (Inr weights) recon (Inr input_audio) chunk_size overlap
           = Inr (zeros_like input_audio, 0)"
    using assms(1) by (simp add: inference_def Let_def nc starts zeros_like_clamped)
  have shape: "map length (zeros_like input_audio) = map length input_audio"
    by (simp add: zeros_like_def comp_def)
  have zero: "\<forall>c \<in> set (zeros_like input_audio). \<forall>x \<in> set c. x = 0"
    by (auto simp: zeros_like_def)
  from starts run shape zero show ?thesis by blast
qed

theorem short_input_gives_silence_witness:
  "inference (Inr ()) (\<lambda>_ chunk. chunk) (Inr [[1, 1, 1], [1, 1, 1]]) 16384 4096
     = Inr ([[0, 0, 0], [0, 0, 0]], 0)"
  using short_input_gives_silence [of "[[1, 1, 1], [1, 1, 1]]" 16384 4096 "()" "\<lambda>_ chunk. chunk"]
  by (simp add: n_channels_def n_samples_def zeros_like_def)

section \<open>The channel check\<close>

text \<open>
  Claim C8. An audio input whose channel count is not 2 makes the load fail with the
  channel-count error: in the dataset when the mixture or the target file of the track has
  another channel count, and in inference for the input file. The error is the result
  whatever the transform, the model and the other parameters are, so none of them is
  consulted before the check.
\<close>

theorem channel_count_checked_at_load:
  "(n_channels mixture \<noteq> 2 \<or> n_channels vocals \<noteq> 2 \<longrightarrow>
      getitem stft segment segment_length hop_length seed (Inr mixture) (Inr vocals) = Inl ChannelCountError)
   \<and> (n_channels input_audio \<noteq> 2 \<longrightarrow>
      inference (Inr weights) recon (Inr input_audio) chunk_size overlap = Inl ChannelCountError)"
  by (simp add: getitem_def inference_def)

theorem channel_count_checked_at_load_witness:
  "getitem (\<lambda>_. []) True 352800 1024 0 (Inr [[0, 0]]) (Inr [[0, 0], [0, 0]]) = Inl ChannelCountError
   \<and> getitem (\<lambda>_. []) True 352800 1024 0 (Inr [[0, 0], [0, 0]]) (Inr [[0], [0], [0]]) = Inl ChannelCountError
   \<and> inference (Inr ()) (\<lambda>_ chunk. chunk) (Inr [[0, 0, 0]]) 16384 4096 = Inl ChannelCountError"
  using channel_count_checked_at_load [of "[[0, 0]]" "[[0, 0], [0, 0]]" "\<lambda>_. []" True 352800 1024 0 "[[0, 0, 0]]" "()" "\<lambda>_ chunk. chunk" 16384 4096]
    channel_count_checked_at_load [of "[[0, 0], [0, 0]]" "[[0], [0], [0]]" "\<lambda>_. []" True 352800 1024 0 "[[0, 0, 0]]" "()" "\<lambda>_ chunk. chunk" 16384 4096]
  by (simp add: n_channels_def)

section \<open>Mode selection\<close>



section \<open>The first chunk\<close>

text \<open>
  Claim C1 says that the whole first chunk is written into the buffer. The source skips
  the cross-fade for \<open>i = 0\<close> and then assigns only
  \<^verbatim>\<open>instrumentals[:, i + cross_fade_length:i + chunk_size]\<close>, so the first
  \<open>overlap div 2\<close> samples of the buffer keep their initial zero. Below, a 2-channel input
  of one chunk (\<open>chunk_size = 4\<close>, \<open>overlap = 2\<close>) with a reconstruction that returns
  the chunk unchanged: the first sample of each channel of the output is 0, not the
  reconstructed 1/2 and 1/4.
\<close>

theorem first_chunk_head_not_written:
  "inference (Inr ()) (\<lambda>_ chunk. chunk) (Inr [[1/2, 1/2, 1/2, 1/2], [1/4, 1/4, 1/4, 1/4]]) 4 2
     = Inr ([[0, 1/2, 1/2, 1/2], [0, 1/4, 1/4, 1/4]], 1)"
proof -
  have starts: "chunk_starts 4 4 2 = Inr [0]"
    by (simp add: chunk_starts_def py_range_def range_up_unfold range_up_empty)
  have first: "chunk_step (\<lambda>chunk. chunk) 4 2 [[1/2, 1/2, 1/2, 1/2], [1/4, 1/4, 1/4, 1/4]] [[0, 0, 0, 0], [0, 0, 0, 0]] 0
      = Inr [[0, 1/2, 1/2, 1/2], [0, 1/4, 1/4, 1/4]]"
    by (simp add: chunk_step_def overlap_add_def overlap_add_channel_def place_rest_def py_slice_def
        norm_index_def broadcast_to_def set_slice_def Let_def)
  show ?thesis
    by (simp add: inference_def n_channels_def n_samples_def num_chunks_def py_floordiv_def starts
        zeros_like_def first clamp_def)
qed

section \<open>The overlap-add of one chunk\<close>

lemma overlap_add_channel_shape:
  assumes "0 \<le> i" "0 \<le> overlap" "overlap < chunk_size"
    and "i + chunk_size \<le> int (length buf)" "int (length chunk) = chunk_size"
  shows "\<exists>buf'. overlap_add_channel i (overlap div 2) chunk_size (buf, chunk) = Inr buf'
           \<and> length buf' = length buf
           \<and> drop (nat (i + chunk_size)) buf' = drop (nat (i + chunk_size)) buf"
proof -
  define a where "a = nat i"
  define c where "c = nat (overlap div 2)"
  define n where "n = length chunk"
  have i: "i = int a" and cf: "overlap div 2 = int c" and cs: "chunk_size = int n"
    using assms by (simp_all add: a_def c_def n_def)
  have c_le: "c \<le> n"
  proof -
    have "overlap div 2 \<le> overlap" using assms(2) by simp
    then show ?thesis using assms(3) cf cs by simp
  qed
  have fits: "a + n \<le> length buf" using assms(4) i cs by simp
  have sum: "nat (int a + int n) = a + n" by simp
  show ?thesis
  proof (cases "a = 0")
    case True
    have "overlap_add_channel 0 (int c) (int n) (buf, chunk) = Inr (take c buf @ drop c chunk @ drop n buf)"
      using fits c_le True by (intro overlap_add_channel_first) (simp_all add: n_def)
    moreover have "length (take c buf @ drop c chunk @ drop n buf) = length buf"
      using fits c_le True by (simp add: n_def)
    moreover have "drop n (take c buf @ drop c chunk @ drop n buf) = drop n buf"
      using fits c_le True by (simp add: n_def)
    ultimately show ?thesis unfolding i cf cs sum using True by simp
  next
    case False
    define mix where "mix = map (\<lambda>k. buf ! (a + k) * linspace_point 1 0 (int c) k + chunk ! k * linspace_point 0 1 (int c) k) [0..<c]"
    have res: "overlap_add_channel (int a) (int c) (int n) (buf, chunk) = Inr (take a buf @ mix @ drop c chunk @ drop (a + n) buf)"
      unfolding mix_def using fits c_le False by (intro overlap_add_channel_later) (simp_all add: n_def)
    have len: "length (take a buf @ mix @ drop c chunk @ drop (a + n) buf) = length buf"
      using fits c_le by (simp add: mix_def n_def)
    have "length (take a buf @ mix @ drop c chunk) = a + n"
      using fits c_le by (simp add: mix_def n_def)
    then have dr: "drop (a + n) (take a buf @ mix @ drop c chunk @ drop (a + n) buf) = drop (a + n) buf"
      by (metis append.assoc append_eq_conv_conj)
    show ?thesis unfolding i cf cs sum using res len dr by blast
  qed
qed

lemma map_err_projr:
  "(\<And>x. x \<in> set xs \<Longrightarrow> \<exists>y. f x = Inr y) \<Longrightarrow> map_err f xs = Inr (map (\<lambda>x. projr (f x)) xs)"
  by (rule map_err_all) fastforce

lemma overlap_add_shape:
  assumes "0 \<le> i" "0 \<le> overlap" "overlap < chunk_size"
    and "length inst_chunk = length instrumentals"
    and "\<forall>b \<in> set instrumentals. i + chunk_size \<le> int (length b)"
    and "\<forall>c \<in> set inst_chunk. int (length c) = chunk_size"
  shows "\<exists>buf'. overlap_add i (overlap div 2) chunk_size instrumentals inst_chunk = Inr buf'
           \<and> map length buf' = map length instrumentals
           \<and> map (drop (nat (i + chunk_size))) buf' = map (drop (nat (i + chunk_size))) instrumentals"
proof -
  let ?f = "overlap_add_channel i (overlap div 2) chunk_size"
  have each: "\<exists>buf'. ?f bc = Inr buf' \<and> length buf' = length (fst bc)
      \<and> drop (nat (i + chunk_size)) buf' = drop (nat (i + chunk_size)) (fst bc)"
    if "bc \<in> set (zip instrumentals inst_chunk)" for bc
  proof -
    obtain b c where bc: "bc = (b, c)" by (cases bc)
    then have "b \<in> set instrumentals" "c \<in> set inst_chunk"
      using that by (auto dest: set_zip_leftD set_zip_rightD)
    then have "i + chunk_size \<le> int (length b)" "int (length c) = chunk_size"
      using assms(5,6) by auto
    then show ?thesis
      using overlap_add_channel_shape[OF assms(1-3), of b c] bc by simp
  qed
  define buf' where "buf' = map (\<lambda>bc. projr (?f bc)) (zip instrumentals inst_chunk)"
  have "map_err ?f (zip instrumentals inst_chunk) = Inr buf'"
    unfolding buf'_def
  proof (rule map_err_projr)
    fix x assume "x \<in> set (zip instrumentals inst_chunk)"
    then show "\<exists>y. ?f x = Inr y" using each by blast
  qed
  then have run: "overlap_add i (overlap div 2) chunk_size instrumentals inst_chunk = Inr buf'"
    unfolding overlap_add_def using assms(4) by simp
  have fst_zip: "map fst (zip instrumentals inst_chunk) = instrumentals"
    using assms(4) by simp
  have "map length buf' = map (\<lambda>bc. length (fst bc)) (zip instrumentals inst_chunk)"
    unfolding buf'_def using each by fastforce
  also have "\<dots> = map length (map fst (zip instrumentals inst_chunk))"
    by (simp add: comp_def)
  finally have len: "map length buf' = map length instrumentals"
    using fst_zip by simp
  have "map (drop (nat (i + chunk_size))) buf'
      = map (\<lambda>bc. drop (nat (i + chunk_size)) (fst bc)) (zip instrumentals inst_chunk)"
    unfolding buf'_def using each by fastforce
  also have "\<dots> = map (drop (nat (i + chunk_size))) (map fst (zip instrumentals inst_chunk))"
    by (simp add: comp_def)
  finally have dr: "map (drop (nat (i + chunk_size))) buf' = map (drop (nat (i + chunk_size))) instrumentals"
    using fst_zip by simp
  from run len dr show ?thesis by blast
qed

lemma overlap_add_channel_values:
  assumes "0 \<le> i" "0 \<le> overlap" "overlap < chunk_size"
    and "i + chunk_size \<le> int (length buf)" "int (length chunk) = chunk_size"
  shows "\<exists>out. overlap_add_channel i (overlap div 2) chunk_size (buf, chunk) = Inr out
           \<and> length out = length buf
           \<and> (\<forall>k. nat (overlap div 2) \<le> k \<and> k < nat chunk_size \<longrightarrow> out ! (nat i + k) = chunk ! k)
           \<and> (0 < i \<longrightarrow> (\<forall>k < nat (overlap div 2).
                 out ! (nat i + k) = buf ! (nat i + k) * linspace_point 1 0 (overlap div 2) k
                                    + chunk ! k * linspace_point 0 1 (overlap div 2) k))"
proof -
  define a where "a = nat i"
  define c where "c = nat (overlap div 2)"
  define n where "n = length chunk"
  have i: "i = int a" and cf: "overlap div 2 = int c" and cs: "chunk_size = int n"
    using assms by (simp_all add: a_def c_def n_def)
  have c_le: "c \<le> n"
  proof -
    have "overlap div 2 \<le> overlap" using assms(2) by simp
    then show ?thesis using assms(3) cf cs by simp
  qed
  have fits: "a + n \<le> length buf" using assms(4) i cs by simp
  have nats: "nat (int a) = a" "nat (int c) = c" "nat (int n) = n" by simp_all
  show ?thesis
  proof (cases "a = 0")
    case True
    define out where "out = take c buf @ drop c chunk @ drop n buf"
    have run: "overlap_add_channel 0 (int c) (int n) (buf, chunk) = Inr out"
      unfolding out_def using fits c_le True by (intro overlap_add_channel_first) (simp_all add: n_def)
    have len: "length out = length buf"
      using fits c_le True by (simp add: out_def n_def)
    have rest: "out ! (0 + k) = chunk ! k" if "c \<le> k" "k < n" for k
    proof -
      have lt: "length (take c buf) = c" using fits c_le by simp
      have kc: "k - c < length (drop c chunk)" using that by (simp add: n_def)
      have "out ! (0 + k) = (drop c chunk @ drop n buf) ! (k - c)"
        unfolding out_def using that(1) lt by (simp add: nth_append)
      also have "\<dots> = drop c chunk ! (k - c)"
        using kc by (simp only: nth_append if_True)
      also have "\<dots> = chunk ! k"
        using that by (simp add: n_def)
      finally show ?thesis .
    qed
    show ?thesis
      unfolding i cf cs nats using True run len rest by auto
  next
    case False
    define mix where "mix = map (\<lambda>k. buf ! (a + k) * linspace_point 1 0 (int c) k + chunk ! k * linspace_point 0 1 (int c) k) [0..<c]"
    define out where "out = take a buf @ mix @ drop c chunk @ drop (a + n) buf"
    have run: "overlap_add_channel (int a) (int c) (int n) (buf, chunk) = Inr out"
      unfolding out_def mix_def using fits c_le False by (intro overlap_add_channel_later) (simp_all add: n_def)
    have len: "length out = length buf"
      using fits c_le by (simp add: out_def mix_def n_def)
    have la: "length (take a buf) = a" using fits by simp
    have lm: "length mix = c" by (simp add: mix_def)
    have rest: "out ! (a + k) = chunk ! k" if "c \<le> k" "k < n" for k
    proof -
      have "out ! (a + k) = (mix @ drop c chunk @ drop (a + n) buf) ! k"
        unfolding out_def using la by (simp add: nth_append)
      also have "\<dots> = (drop c chunk @ drop (a + n) buf) ! (k - c)"
        using that(1) lm by (simp add: nth_append)
      also have "\<dots> = drop c chunk ! (k - c)"
      proof -
        have "k - c < length (drop c chunk)" using that by (simp add: n_def)
        then show ?thesis by (simp only: nth_append if_True)
      qed
      also have "\<dots> = chunk ! k"
        using that by (simp add: n_def)
      finally show ?thesis .
    qed
    have head: "out ! (a + k) = buf ! (a + k) * linspace_point 1 0 (int c) k + chunk ! k * linspace_point 0 1 (int c) k"
      if "k < c" for k
    proof -
      have "out ! (a + k) = (mix @ drop c chunk @ drop (a + n) buf) ! k"
        unfolding out_def using la by (simp add: nth_append)
      also have "\<dots> = mix ! k"
        using that lm by (simp add: nth_append)
      finally show ?thesis using that by (simp add: mix_def)
    qed
    show ?thesis
      unfolding i cf cs nats using run len rest head by auto
  qed
qed

lemma overlap_add_values:
  assumes "0 \<le> i" "0 \<le> overlap" "overlap < chunk_size"
    and "length inst_chunk = length instrumentals"
    and "\<forall>b \<in> set instrumentals. i + chunk_size \<le> int (length b)"
    and "\<forall>c \<in> set inst_chunk. int (length c) = chunk_size"
  shows "\<exists>out. overlap_add i (overlap div 2) chunk_size instrumentals inst_chunk = Inr out
           \<and> length out = length instrumentals
           \<and> (\<forall>ch k. ch < length instrumentals \<and> nat (overlap div 2) \<le> k \<and> k < nat chunk_size
                 \<longrightarrow> out ! ch ! (nat i + k) = inst_chunk ! ch ! k)
           \<and> (0 < i \<longrightarrow> (\<forall>ch k. ch < length instrumentals \<and> k < nat (overlap div 2) \<longrightarrow>
                 out ! ch ! (nat i + k)
                   = instrumentals ! ch ! (nat i + k) * linspace_point 1 0 (overlap div 2) k
                     + inst_chunk ! ch ! k * linspace_point 0 1 (overlap div 2) k))"
proof -
  let ?f = "overlap_add_channel i (overlap div 2) chunk_size"
  let ?P = "\<lambda>buf chunk out. ?f (buf, chunk) = Inr out
           \<and> length out = length buf
           \<and> (\<forall>k. nat (overlap div 2) \<le> k \<and> k < nat chunk_size \<longrightarrow> out ! (nat i + k) = chunk ! k)
           \<and> (0 < i \<longrightarrow> (\<forall>k < nat (overlap div 2).
                 out ! (nat i + k) = buf ! (nat i + k) * linspace_point 1 0 (overlap div 2) k
                                    + chunk ! k * linspace_point 0 1 (overlap div 2) k))"
  have each: "\<exists>out. ?P b c out" if "b \<in> set instrumentals" "c \<in> set inst_chunk" for b c
  proof -
    have "i + chunk_size \<le> int (length b)" "int (length c) = chunk_size"
      using that assms(5,6) by auto
    then show ?thesis
      using overlap_add_channel_values[OF assms(1-3), of b c] by simp
  qed
  define out where "out = map (\<lambda>bc. projr (?f bc)) (zip instrumentals inst_chunk)"
  have "map_err ?f (zip instrumentals inst_chunk) = Inr out"
    unfolding out_def
  proof (rule map_err_projr)
    fix x assume x: "x \<in> set (zip instrumentals inst_chunk)"
    obtain b c where bc: "x = (b, c)" by (cases x)
    then have "b \<in> set instrumentals" "c \<in> set inst_chunk"
      using x by (auto dest: set_zip_leftD set_zip_rightD)
    then show "\<exists>y. ?f x = Inr y" using each bc by blast
  qed
  then have run: "overlap_add i (overlap div 2) chunk_size instrumentals inst_chunk = Inr out"
    unfolding overlap_add_def using assms(4) by simp
  have len: "length out = length instrumentals"
    using assms(4) by (simp add: out_def)
  have chan: "?P (instrumentals ! ch) (inst_chunk ! ch) (out ! ch)" if "ch < length instrumentals" for ch
  proof -
    have mem: "instrumentals ! ch \<in> set instrumentals" "inst_chunk ! ch \<in> set inst_chunk"
      using that assms(4) by simp_all
    obtain o1 where o1: "?P (instrumentals ! ch) (inst_chunk ! ch) o1"
      using each[OF mem] by blast
    have "out ! ch = projr (?f (instrumentals ! ch, inst_chunk ! ch))"
      using that assms(4) by (simp add: out_def)
    also have "\<dots> = o1" using o1 by simp
    finally show ?thesis using o1 by simp
  qed
  show ?thesis
    apply (rule exI[of _ out])
    using run len chan by blast
qed

section \<open>The chunk starts\<close>

lemma py_slice_take_drop: "py_slice xs (int a) (int b) = take (b - a) (drop a xs)"
proof (cases "a < length xs")
  case True
  then have "min b (length xs) - a = min (b - a) (length xs - a)" by simp
  then show ?thesis using True by (simp add: py_slice_nat min_def)
next
  case False
  then show ?thesis by (simp add: py_slice_nat)
qed

lemma py_slice_prefix:
  assumes "0 \<le> lo" "0 \<le> hi" "hi \<le> int B"
  shows "py_slice (take B xs) lo hi = py_slice xs lo hi"
proof -
  obtain a b where lo: "lo = int a" and hi: "hi = int b"
    using assms(1,2) by (metis nonneg_int_cases)
  have b: "b \<le> B" using assms(3) hi by simp
  have "take (b - a) (drop a (take B xs)) = take (b - a) (take (B - a) (drop a xs))"
    by (simp add: drop_take)
  also have "\<dots> = take (b - a) (drop a xs)"
    using b by (simp add: min_def)
  finally show ?thesis unfolding lo hi py_slice_take_drop .
qed

lemma drop_further:
  assumes "map (drop k) xs = map (drop k) ys" "k \<le> m"
  shows "map (drop m) xs = map (drop m) ys"
proof -
  have "map (drop m) xs = map (drop (m - k)) (map (drop k) xs)"
    using assms(2) by (simp add: comp_def)
  also have "\<dots> = map (drop (m - k)) (map (drop k) ys)"
    using assms(1) by simp
  also have "\<dots> = map (drop m) ys"
    using assms(2) by (simp add: comp_def)
  finally show ?thesis .
qed

lemma chunks_from_prefix:
  assumes "map (take B) x = map (take B) y" "0 \<le> i" "0 \<le> i + chunk_size" "i + chunk_size \<le> int B"
  shows "map (\<lambda>c. py_slice c i (i + chunk_size)) x = map (\<lambda>c. py_slice c i (i + chunk_size)) y"
proof -
  have "map (\<lambda>c. py_slice c i (i + chunk_size)) x = map (\<lambda>c. py_slice c i (i + chunk_size)) (map (take B) x)"
    using assms(2-4) by (simp add: comp_def py_slice_prefix)
  also have "\<dots> = map (\<lambda>c. py_slice c i (i + chunk_size)) (map (take B) y)"
    using assms(1) by simp
  also have "\<dots> = map (\<lambda>c. py_slice c i (i + chunk_size)) y"
    using assms(2-4) by (simp add: comp_def py_slice_prefix)
  finally show ?thesis .
qed

lemma chunk_starts_normal:
  fixes total_length chunk_size overlap :: int
  assumes "overlap < chunk_size" "chunk_size \<le> total_length"
  defines "starts \<equiv> range_up 0 (total_length - chunk_size + 1) (chunk_size - overlap)"
  shows "chunk_starts total_length chunk_size overlap = Inr starts"
    and "num_chunks total_length chunk_size overlap = Inr (int (length starts))"
    and "int (length starts) = (total_length - overlap) div (chunk_size - overlap)"
    and "starts = map (\<lambda>k. int k * (chunk_size - overlap)) [0..<length starts]"
    and "starts \<noteq> []"
    and "\<forall>i \<in> set starts. 0 \<le> i \<and> i + chunk_size \<le> total_length"
    and "total_length < int (length starts) * (chunk_size - overlap) + chunk_size"
    and "last starts + chunk_size - 1 < total_length"
    and "\<forall>i \<in> set starts. i \<le> last starts"
proof -
  define d where "d = chunk_size - overlap"
  have d: "0 < d" using assms(1) by (simp add: d_def)
  have starts: "starts = range_up 0 (total_length - chunk_size + 1) d"
    by (simp add: starts_def d_def)
  show cs: "chunk_starts total_length chunk_size overlap = Inr starts"
    using d by (simp add: chunk_starts_def py_range_def starts d_def)
  have "total_length - chunk_size + 1 - 0 + d - 1 = total_length - overlap"
    by (simp add: d_def)
  then have len0: "length starts = nat ((total_length - overlap) div d)"
    unfolding starts using range_up_length[OF d, of 0 "total_length - chunk_size + 1"] by simp
  have "d \<le> total_length - overlap" using assms(2) by (simp add: d_def)
  then have ge1: "1 \<le> (total_length - overlap) div d"
    using d by (simp add: pos_imp_zdiv_pos_iff Suc_le_eq int_one_le_iff_zero_less)
  then show len: "int (length starts) = (total_length - overlap) div (chunk_size - overlap)"
    using len0 by (simp add: d_def)
  show "num_chunks total_length chunk_size overlap = Inr (int (length starts))"
    using d len by (simp add: num_chunks_def py_floordiv_def d_def)
  show map_eq: "starts = map (\<lambda>k. int k * (chunk_size - overlap)) [0..<length starts]"
    using range_up_eq_map[OF d, of 0 "total_length - chunk_size + 1"] by (simp add: starts d_def)
  show ne: "starts \<noteq> []" using len ge1 by (auto simp: d_def)
  show "\<forall>i \<in> set starts. 0 \<le> i \<and> i + chunk_size \<le> total_length"
    using range_up_bounds[of _ 0 "total_length - chunk_size + 1" d] starts by fastforce
  define q where "q = (total_length - overlap) div d"
  define r where "r = (total_length - overlap) mod d"
  have lend: "int (length starts) = q"
    using len by (simp add: d_def q_def)
  have split: "total_length - overlap = q * d + r"
    by (simp add: q_def r_def)
  have r: "0 \<le> r" "r < d"
    using d by (simp_all add: r_def)
  have cs_d: "chunk_size = d + overlap"
    by (simp add: d_def)
  have "total_length < q * d + chunk_size"
    using split r(2) cs_d by linarith
  then show "total_length < int (length starts) * (chunk_size - overlap) + chunk_size"
    unfolding lend by (simp add: d_def)
  have last: "last starts = (q - 1) * d"
  proof -
    have "last starts = starts ! (length starts - 1)" using ne by (simp add: last_conv_nth)
    also have "\<dots> = 0 + int (length starts - 1) * d"
      unfolding starts using ne d by (intro range_up_nth) (simp_all add: starts)
    also have "int (length starts - 1) = q - 1"
      using ne lend by (cases starts) simp_all
    finally show ?thesis by simp
  qed
  have "(q - 1) * d = q * d - d" by (simp add: algebra_simps)
  then have "last starts + chunk_size - 1 = q * d + overlap - 1"
    using last cs_d by linarith
  then show "last starts + chunk_size - 1 < total_length"
    using split r(1) by linarith
  show "\<forall>i \<in> set starts. i \<le> last starts"
  proof
    fix i assume "i \<in> set starts"
    then obtain k where k: "k < length starts" "i = starts ! k"
      by (metis in_set_conv_nth)
    then have "i = 0 + int k * d" unfolding starts using d by (simp add: range_up_nth)
    moreover have "int k \<le> q - 1" using k(1) lend by linarith
    ultimately show "i \<le> last starts" unfolding last using d by (simp add: mult_right_mono)
  qed
qed

lemma n_samples_uniform:
  assumes "length w = 2" "\<forall>c \<in> set w. int (length c) = total_length"
  shows "int (n_samples w) = total_length"
  using assms by (cases w) (simp_all add: n_samples_def)

lemma zeros_like_uniform:
  assumes "length w = m" "\<forall>c \<in> set w. int (length c) = total_length"
  shows "zeros_like w = replicate m (replicate (nat total_length) 0)"
proof -
  have "map (\<lambda>c. replicate (length c) (0::real)) w = map (\<lambda>c. replicate (nat total_length) 0) w"
    using assms(2) by (intro map_cong) auto
  then show ?thesis
    using assms(1) by (simp add: zeros_like_def map_replicate_const)
qed

lemma zeros_like_tail:
  assumes "map (drop k) buf = map (drop k) (zeros_like w)" "c \<in> set (map (map (clamp (- 1) 1)) buf)"
    "k \<le> j" "j < length c"
  shows "c ! j = 0"
proof -
  obtain b where b: "b \<in> set buf" "c = map (clamp (- 1) 1) b"
    using assms(2) by auto
  have "drop k b \<in> set (map (drop k) (zeros_like w))"
    using b(1) assms(1) by (metis image_eqI set_map)
  then obtain z where z: "z \<in> set w" "drop k b = drop k (replicate (length z) 0)"
    by (auto simp: zeros_like_def)
  have j: "j < length b" using assms(4) b(2) by simp
  have dz: "drop k b = replicate (length z - k) 0"
    using z(2) by simp
  have "length (drop k b) = length z - k"
    unfolding dz by simp
  then have jk: "j - k < length z - k"
    using assms(3) j by simp
  have "b ! j = drop k b ! (j - k)" using assms(3) j by simp
  also have "\<dots> = 0" unfolding dz using jk by simp
  finally show ?thesis using b(2) j by (simp add: clamp_zero)
qed

section \<open>The loop over the chunks\<close>

lemma map_err_nth:
  "map_err f xs = Inr ys \<Longrightarrow> length ys = length xs \<and> (\<forall>n < length xs. f (xs ! n) = Inr (ys ! n))"
proof (induction xs arbitrary: ys)
  case Nil
  then show ?case by simp
next
  case (Cons x xs)
  from Cons.prems obtain y ys' where y: "f x = Inr y" and r: "map_err f xs = Inr ys'" and e: "ys = y # ys'"
    by (auto split: sum.splits)
  from Cons.IH[OF r] have len: "length ys' = length xs" and nth: "\<forall>n < length xs. f (xs ! n) = Inr (ys' ! n)"
    by simp_all
  show ?case
  proof (intro conjI allI impI)
    show "length ys = length (x # xs)" using len e by simp
  next
    fix n assume "n < length (x # xs)"
    then show "f ((x # xs) ! n) = Inr (ys ! n)"
      using y nth e by (cases n) simp_all
  qed
qed

lemma overlap_add_channels:
  assumes "overlap_add i cross_fade_length chunk_size instrumentals inst_chunk = Inr out"
  shows "length out = length instrumentals"
    and "length inst_chunk = length instrumentals"
    and "\<forall>ch < length instrumentals.
           overlap_add_channel i cross_fade_length chunk_size (instrumentals ! ch, inst_chunk ! ch)
             = Inr (out ! ch)"
proof -
  show eq: "length inst_chunk = length instrumentals"
    using assms by (simp add: overlap_add_def split: if_splits)
  have run: "map_err (overlap_add_channel i cross_fade_length chunk_size) (zip instrumentals inst_chunk) = Inr out"
    using assms eq by (simp add: overlap_add_def)
  note facts = map_err_nth[OF run]
  show "length out = length instrumentals" using facts eq by simp
  show "\<forall>ch < length instrumentals.
           overlap_add_channel i cross_fade_length chunk_size (instrumentals ! ch, inst_chunk ! ch)
             = Inr (out ! ch)"
  proof (intro allI impI)
    fix ch assume ch: "ch < length instrumentals"
    then have "ch < length (zip instrumentals inst_chunk)" using eq by simp
    then have "overlap_add_channel i cross_fade_length chunk_size (zip instrumentals inst_chunk ! ch) = Inr (out ! ch)"
      using facts by blast
    then show "overlap_add_channel i cross_fade_length chunk_size (instrumentals ! ch, inst_chunk ! ch)
             = Inr (out ! ch)"
      using ch eq by simp
  qed
qed

lemma overlap_add_channel_take:
  assumes "0 \<le> i" "0 \<le> overlap" "overlap < chunk_size"
    and "i + chunk_size \<le> int (length buf)" "int (length chunk) = chunk_size"
    and "overlap_add_channel i (overlap div 2) chunk_size (buf, chunk) = Inr out"
  shows "take (nat i) out = take (nat i) buf"
proof -
  define a where "a = nat i"
  define c where "c = nat (overlap div 2)"
  define n where "n = length chunk"
  have i: "i = int a" and cf: "overlap div 2 = int c" and cs: "chunk_size = int n"
    using assms by (simp_all add: a_def c_def n_def)
  have c_le: "c \<le> n"
  proof -
    have "overlap div 2 \<le> overlap" using assms(2) by simp
    then show ?thesis using assms(3) cf cs by simp
  qed
  have fits: "a + n \<le> length buf" using assms(4) i cs by simp
  show ?thesis
  proof (cases "a = 0")
    case True
    then show ?thesis by (simp add: a_def)
  next
    case False
    define mix where "mix = map (\<lambda>k. buf ! (a + k) * linspace_point 1 0 (int c) k + chunk ! k * linspace_point 0 1 (int c) k) [0..<c]"
    have "overlap_add_channel (int a) (int c) (int n) (buf, chunk) = Inr (take a buf @ mix @ drop c chunk @ drop (a + n) buf)"
      unfolding mix_def using fits c_le False by (intro overlap_add_channel_later) (simp_all add: n_def)
    then have out: "out = take a buf @ mix @ drop c chunk @ drop (a + n) buf"
      using assms(6) unfolding i cf cs by simp
    have "take a out = take a buf"
      unfolding out using fits by simp
    then show ?thesis by (simp add: a_def)
  qed
qed

lemma chunk_step_facts:
  assumes "0 \<le> i" "0 \<le> overlap" "overlap < chunk_size"
    and "\<And>x. length (recon x) = length instrumentals \<and> (\<forall>c \<in> set (recon x). int (length c) = chunk_size)"
    and "\<forall>n \<in> set (map length instrumentals). i + chunk_size \<le> int n"
  shows "\<exists>out. chunk_step recon chunk_size overlap input_audio instrumentals i = Inr out
           \<and> map length out = map length instrumentals
           \<and> map (drop (nat (i + chunk_size))) out = map (drop (nat (i + chunk_size))) instrumentals
           \<and> map (take (nat i)) out = map (take (nat i)) instrumentals
           \<and> (\<forall>ch k. ch < length instrumentals \<and> nat (overlap div 2) \<le> k \<and> k < nat chunk_size
                 \<longrightarrow> out ! ch ! (nat i + k)
                       = recon (map (\<lambda>c. py_slice c i (i + chunk_size)) input_audio) ! ch ! k)
           \<and> (0 < i \<longrightarrow> (\<forall>ch k. ch < length instrumentals \<and> k < nat (overlap div 2) \<longrightarrow>
                 out ! ch ! (nat i + k)
                   = instrumentals ! ch ! (nat i + k) * linspace_point 1 0 (overlap div 2) k
                     + recon (map (\<lambda>c. py_slice c i (i + chunk_size)) input_audio) ! ch ! k
                         * linspace_point 0 1 (overlap div 2) k))"
proof -
  define inst_chunk where "inst_chunk = recon (map (\<lambda>c. py_slice c i (i + chunk_size)) input_audio)"
  have len: "length inst_chunk = length instrumentals"
    and chunks: "\<forall>c \<in> set inst_chunk. int (length c) = chunk_size"
    using assms(4) by (simp_all add: inst_chunk_def)
  have bufs: "\<forall>b \<in> set instrumentals. i + chunk_size \<le> int (length b)"
    using assms(5) by simp
  have step: "chunk_step recon chunk_size overlap input_audio instrumentals i
      = overlap_add i (overlap div 2) chunk_size instrumentals inst_chunk"
    by (simp add: chunk_step_def inst_chunk_def)
  obtain out where run: "overlap_add i (overlap div 2) chunk_size instrumentals inst_chunk = Inr out"
    and shape: "map length out = map length instrumentals"
    and dr: "map (drop (nat (i + chunk_size))) out = map (drop (nat (i + chunk_size))) instrumentals"
    using overlap_add_shape[OF assms(1-3) len bufs chunks] by blast
  obtain out' where run': "overlap_add i (overlap div 2) chunk_size instrumentals inst_chunk = Inr out'"
    and rest: "\<forall>ch k. ch < length instrumentals \<and> nat (overlap div 2) \<le> k \<and> k < nat chunk_size
                 \<longrightarrow> out' ! ch ! (nat i + k) = inst_chunk ! ch ! k"
    and head: "0 < i \<longrightarrow> (\<forall>ch k. ch < length instrumentals \<and> k < nat (overlap div 2) \<longrightarrow>
                 out' ! ch ! (nat i + k)
                   = instrumentals ! ch ! (nat i + k) * linspace_point 1 0 (overlap div 2) k
                     + inst_chunk ! ch ! k * linspace_point 0 1 (overlap div 2) k)"
    using overlap_add_values[OF assms(1-3) len bufs chunks] by blast
  have same: "out' = out" using run run' by simp
  note ch = overlap_add_channels[OF run]
  have tk: "map (take (nat i)) out = map (take (nat i)) instrumentals"
  proof (rule nth_equalityI)
    show "length (map (take (nat i)) out) = length (map (take (nat i)) instrumentals)"
      using ch(1) by simp
  next
    fix n assume "n < length (map (take (nat i)) out)"
    then have n: "n < length instrumentals" using ch(1) by simp
    then have mem: "instrumentals ! n \<in> set instrumentals" "inst_chunk ! n \<in> set inst_chunk"
      using len by simp_all
    have "take (nat i) (out ! n) = take (nat i) (instrumentals ! n)"
    proof (rule overlap_add_channel_take[OF assms(1-3)])
      show "i + chunk_size \<le> int (length (instrumentals ! n))" using bufs mem(1) by blast
      show "int (length (inst_chunk ! n)) = chunk_size" using chunks mem(2) by blast
      show "overlap_add_channel i (overlap div 2) chunk_size (instrumentals ! n, inst_chunk ! n) = Inr (out ! n)"
        using ch(3) n by blast
    qed
    then show "map (take (nat i)) out ! n = map (take (nat i)) instrumentals ! n"
      using n ch(1) by simp
  qed
  show ?thesis
    apply (rule exI[of _ out])
    unfolding step inst_chunk_def[symmetric]
    using run shape dr tk rest head unfolding same by blast
qed

lemma take_further:
  assumes "map (take k) xs = map (take k) ys" "m \<le> k"
  shows "map (take m) xs = map (take m) ys"
proof -
  have "map (take m) xs = map (take m) (map (take k) xs)"
    using assms(2) by (simp add: comp_def min_def)
  also have "\<dots> = map (take m) (map (take k) ys)"
    using assms(1) by simp
  also have "\<dots> = map (take m) ys"
    using assms(2) by (simp add: comp_def min_def)
  finally show ?thesis .
qed

lemma inference_loop_frame:
  assumes "0 \<le> overlap" "overlap < chunk_size"
    and "\<And>x. length (recon x) = length instrumentals \<and> (\<forall>c \<in> set (recon x). int (length c) = chunk_size)"
    and "\<forall>i \<in> set starts. 0 \<le> i \<and> lo \<le> i \<and> i + chunk_size \<le> bound"
    and "\<forall>n \<in> set (map length instrumentals). bound \<le> int n"
  shows "\<exists>out. inference_loop recon chunk_size overlap input_audio (instrumentals, pbar) starts
               = Inr (out, pbar + int (length starts))
           \<and> map length out = map length instrumentals
           \<and> map (drop (nat bound)) out = map (drop (nat bound)) instrumentals
           \<and> map (take (nat lo)) out = map (take (nat lo)) instrumentals"
  using assms(3-5)
proof (induction starts arbitrary: instrumentals pbar)
  case Nil
  then show ?case by simp
next
  case (Cons i rest)
  have i: "0 \<le> i" "lo \<le> i" "i + chunk_size \<le> bound" using Cons.prems(2) by simp_all
  have fits: "\<forall>n \<in> set (map length instrumentals). i + chunk_size \<le> int n"
    using Cons.prems(3) i(3) by fastforce
  have "\<exists>out. chunk_step recon chunk_size overlap input_audio instrumentals i = Inr out
           \<and> map length out = map length instrumentals
           \<and> map (drop (nat (i + chunk_size))) out = map (drop (nat (i + chunk_size))) instrumentals
           \<and> map (take (nat i)) out = map (take (nat i)) instrumentals"
    using chunk_step_facts[of i overlap chunk_size recon instrumentals input_audio, OF i(1) assms(1,2) Cons.prems(1) fits]
    by blast
  then obtain buf' where step1: "chunk_step recon chunk_size overlap input_audio instrumentals i = Inr buf'"
    and len1: "map length buf' = map length instrumentals"
    and dr1: "map (drop (nat (i + chunk_size))) buf' = map (drop (nat (i + chunk_size))) instrumentals"
    and tk1: "map (take (nat i)) buf' = map (take (nat i)) instrumentals"
    by blast
  have length1: "length buf' = length instrumentals"
    using len1 by (metis length_map)
  have "\<exists>out. inference_loop recon chunk_size overlap input_audio (buf', pbar + 1) rest
               = Inr (out, pbar + 1 + int (length rest))
           \<and> map length out = map length buf'
           \<and> map (drop (nat bound)) out = map (drop (nat bound)) buf'
           \<and> map (take (nat lo)) out = map (take (nat lo)) buf'"
  proof (rule Cons.IH)
    show "\<And>x. length (recon x) = length buf' \<and> (\<forall>c \<in> set (recon x). int (length c) = chunk_size)"
      using Cons.prems(1) length1 by simp
    show "\<forall>j \<in> set rest. 0 \<le> j \<and> lo \<le> j \<and> j + chunk_size \<le> bound"
      using Cons.prems(2) by simp
    show "\<forall>n \<in> set (map length buf'). bound \<le> int n"
      using Cons.prems(3) len1 by simp
  qed
  then obtain out where run: "inference_loop recon chunk_size overlap input_audio (buf', pbar + 1) rest
               = Inr (out, pbar + 1 + int (length rest))"
    and len2: "map length out = map length buf'"
    and dr2: "map (drop (nat bound)) out = map (drop (nat bound)) buf'"
    and tk2: "map (take (nat lo)) out = map (take (nat lo)) buf'"
    by blast
  have "nat (i + chunk_size) \<le> nat bound" using i(3) by simp
  with dr1 have dr: "map (drop (nat bound)) buf' = map (drop (nat bound)) instrumentals"
    by (rule drop_further)
  have "nat lo \<le> nat i" using i(2) by simp
  with tk1 have tk: "map (take (nat lo)) buf' = map (take (nat lo)) instrumentals"
    by (rule take_further)
  show ?case
    using step1 run len1 len2 dr2 dr tk2 tk by simp
qed

lemma inference_loop_input:
  assumes "\<forall>i \<in> set starts. map (\<lambda>c. py_slice c i (i + chunk_size)) x = map (\<lambda>c. py_slice c i (i + chunk_size)) y"
  shows "inference_loop recon chunk_size overlap x st starts
       = inference_loop recon chunk_size overlap y st starts"
  using assms
proof (induction starts arbitrary: st)
  case Nil
  then show ?case by (cases st) simp
next
  case (Cons i rest)
  obtain instrumentals pbar where st: "st = (instrumentals, pbar)" by (cases st)
  have same: "chunk_step recon chunk_size overlap x instrumentals i = chunk_step recon chunk_size overlap y instrumentals i"
    using Cons.prems by (simp add: chunk_step_def)
  show ?case
  proof (cases "chunk_step recon chunk_size overlap y instrumentals i")
    case (Inl e)
    then show ?thesis using same st by simp
  next
    case (Inr buf')
    then show ?thesis using same st Cons.IH[of "(buf', pbar + 1)"] Cons.prems by simp
  qed
qed

lemma inference_loop_append:
  "inference_loop recon chunk_size overlap input_audio st (xs @ ys)
     = (case inference_loop recon chunk_size overlap input_audio st xs of
          Inl e \<Rightarrow> Inl e
        | Inr st' \<Rightarrow> inference_loop recon chunk_size overlap input_audio st' ys)"
proof (induction xs arbitrary: st)
  case Nil
  then show ?case by (cases st) simp
next
  case (Cons i rest)
  obtain instrumentals pbar where st: "st = (instrumentals, pbar)" by (cases st)
  show ?case
  proof (cases "chunk_step recon chunk_size overlap input_audio instrumentals i")
    case (Inl e)
    then show ?thesis using st by simp
  next
    case (Inr buf')
    then show ?thesis using st Cons.IH[of "(buf', pbar + 1)"] by simp
  qed
qed

lemma starts_shift:
  "map (\<lambda>j. i0 + int j * d) [0..<Suc n] = i0 # map (\<lambda>j. (i0 + d) + int j * d) [0..<n]"
proof -
  have "map (\<lambda>j. i0 + int j * d) [0..<Suc n] = i0 # map (\<lambda>j. i0 + int (Suc j) * d) [0..<n]"
    by (simp add: upt_conv_Cons map_Suc_upt[symmetric] del: upt_Suc)
  also have "map (\<lambda>j. i0 + int (Suc j) * d) [0..<n] = map (\<lambda>j. (i0 + d) + int j * d) [0..<n]"
    by (simp add: algebra_simps)
  finally show ?thesis .
qed

lemma nth_from_take:
  assumes "map (take L) xs = map (take L) ys" "ch < length ys" "p < L"
  shows "xs ! ch ! p = ys ! ch ! p"
proof -
  have len: "length xs = length ys" using assms(1) by (metis length_map)
  have "take L (xs ! ch) = take L (ys ! ch)"
    using assms(1,2) len by (metis nth_map)
  then have "take L (xs ! ch) ! p = take L (ys ! ch) ! p" by simp
  then show ?thesis using assms(3) by simp
qed

lemma inference_loop_chunks:
  assumes "0 \<le> overlap" "overlap < chunk_size"
    and "\<And>x. length (recon x) = length instrumentals \<and> (\<forall>c \<in> set (recon x). int (length c) = chunk_size)"
    and "0 \<le> i0"
    and "\<forall>j < n. i0 + int j * (chunk_size - overlap) + chunk_size \<le> bound"
    and "\<forall>l \<in> set (map length instrumentals). bound \<le> int l"
  shows "\<exists>out. inference_loop recon chunk_size overlap input_audio (instrumentals, pbar)
                 (map (\<lambda>j. i0 + int j * (chunk_size - overlap)) [0..<n])
               = Inr (out, pbar + int n)
           \<and> map length out = map length instrumentals
           \<and> (\<forall>m ch k. m < n \<and> ch < length instrumentals
                  \<and> nat (overlap div 2) \<le> k \<and> k < nat chunk_size
                  \<and> (Suc m < n \<longrightarrow> int k < chunk_size - overlap)
                \<longrightarrow> out ! ch ! (nat (i0 + int m * (chunk_size - overlap)) + k)
                      = recon (map (\<lambda>c. py_slice c (i0 + int m * (chunk_size - overlap))
                                       (i0 + int m * (chunk_size - overlap) + chunk_size)) input_audio) ! ch ! k)"
  using assms(3-6)
proof (induction n arbitrary: i0 instrumentals pbar)
  case 0
  then show ?case by simp
next
  case (Suc n)
  define d where "d = chunk_size - overlap"
  have d: "0 < d" using assms(2) by (simp add: d_def)
  define rest where "rest = map (\<lambda>j. (i0 + d) + int j * d) [0..<n]"
  have list: "map (\<lambda>j. i0 + int j * d) [0..<Suc n] = i0 # rest"
    unfolding rest_def by (rule starts_shift)
  have first_fits: "i0 + chunk_size \<le> bound"
    using Suc.prems(3)[rule_format, of 0] by simp
  have fits: "\<forall>l \<in> set (map length instrumentals). i0 + chunk_size \<le> int l"
    using Suc.prems(4) first_fits by fastforce
  let ?chunk0 = "recon (map (\<lambda>c. py_slice c i0 (i0 + chunk_size)) input_audio)"
  have "\<exists>out. chunk_step recon chunk_size overlap input_audio instrumentals i0 = Inr out
           \<and> map length out = map length instrumentals
           \<and> (\<forall>ch k. ch < length instrumentals \<and> nat (overlap div 2) \<le> k \<and> k < nat chunk_size
                 \<longrightarrow> out ! ch ! (nat i0 + k) = ?chunk0 ! ch ! k)"
    using chunk_step_facts[of i0 overlap chunk_size recon instrumentals input_audio,
        OF Suc.prems(2) assms(1,2) Suc.prems(1) fits]
    by blast
  then obtain buf1 where step1: "chunk_step recon chunk_size overlap input_audio instrumentals i0 = Inr buf1"
    and len1: "map length buf1 = map length instrumentals"
    and val1: "\<forall>ch k. ch < length instrumentals \<and> nat (overlap div 2) \<le> k \<and> k < nat chunk_size
                 \<longrightarrow> buf1 ! ch ! (nat i0 + k) = ?chunk0 ! ch ! k"
    by blast
  have length1: "length buf1 = length instrumentals"
    using len1 by (metis length_map)
  have contract1: "\<And>x. length (recon x) = length buf1 \<and> (\<forall>c \<in> set (recon x). int (length c) = chunk_size)"
    using Suc.prems(1) length1 by simp
  have next0: "0 \<le> i0 + d" using Suc.prems(2) d by simp
  have rest_fits: "\<forall>j < n. (i0 + d) + int j * d + chunk_size \<le> bound"
  proof (intro allI impI)
    fix j assume "j < n"
    then have "Suc j < Suc n" by simp
    then have "i0 + int (Suc j) * (chunk_size - overlap) + chunk_size \<le> bound"
      using Suc.prems(3) by blast
    then show "(i0 + d) + int j * d + chunk_size \<le> bound"
      by (simp add: algebra_simps d_def)
  qed
  have lens1: "\<forall>l \<in> set (map length buf1). bound \<le> int l"
    using Suc.prems(4) len1 by simp
  have "\<exists>out. inference_loop recon chunk_size overlap input_audio (buf1, pbar + 1)
                 (map (\<lambda>j. (i0 + d) + int j * (chunk_size - overlap)) [0..<n])
               = Inr (out, pbar + 1 + int n)
           \<and> map length out = map length buf1
           \<and> (\<forall>m ch k. m < n \<and> ch < length buf1
                  \<and> nat (overlap div 2) \<le> k \<and> k < nat chunk_size
                  \<and> (Suc m < n \<longrightarrow> int k < chunk_size - overlap)
                \<longrightarrow> out ! ch ! (nat ((i0 + d) + int m * (chunk_size - overlap)) + k)
                      = recon (map (\<lambda>c. py_slice c ((i0 + d) + int m * (chunk_size - overlap))
                                       ((i0 + d) + int m * (chunk_size - overlap) + chunk_size)) input_audio) ! ch ! k)"
  proof (rule Suc.IH)
    show "\<And>x. length (recon x) = length buf1 \<and> (\<forall>c \<in> set (recon x). int (length c) = chunk_size)"
      using contract1 .
    show "0 \<le> i0 + d" using next0 .
    show "\<forall>j < n. (i0 + d) + int j * (chunk_size - overlap) + chunk_size \<le> bound"
      using rest_fits by (simp add: d_def)
    show "\<forall>l \<in> set (map length buf1). bound \<le> int l" using lens1 .
  qed
  then obtain out where run: "inference_loop recon chunk_size overlap input_audio (buf1, pbar + 1) rest
               = Inr (out, pbar + 1 + int n)"
    and len2: "map length out = map length buf1"
    and val2: "\<forall>m ch k. m < n \<and> ch < length buf1
                  \<and> nat (overlap div 2) \<le> k \<and> k < nat chunk_size
                  \<and> (Suc m < n \<longrightarrow> int k < d)
                \<longrightarrow> out ! ch ! (nat ((i0 + d) + int m * d) + k)
                      = recon (map (\<lambda>c. py_slice c ((i0 + d) + int m * d)
                                       ((i0 + d) + int m * d + chunk_size)) input_audio) ! ch ! k"
    unfolding rest_def d_def by blast
  have "\<exists>out'. inference_loop recon chunk_size overlap input_audio (buf1, pbar + 1) rest
               = Inr (out', pbar + 1 + int (length rest))
           \<and> map (take (nat (i0 + d))) out' = map (take (nat (i0 + d))) buf1"
  proof -
    have elems: "\<forall>i \<in> set rest. 0 \<le> i \<and> i0 + d \<le> i \<and> i + chunk_size \<le> bound"
    proof
      fix i assume "i \<in> set rest"
      then obtain j where j: "j < n" "i = (i0 + d) + int j * d"
        by (auto simp: rest_def)
      have "0 \<le> int j * d" using d by simp
      then show "0 \<le> i \<and> i0 + d \<le> i \<and> i + chunk_size \<le> bound"
        using j next0 rest_fits by simp
    qed
    show ?thesis
      using inference_loop_frame[of overlap chunk_size recon buf1 rest "i0 + d" bound input_audio "pbar + 1",
          OF assms(1,2) contract1 elems lens1]
      by blast
  qed
  then have frame: "map (take (nat (i0 + d))) out = map (take (nat (i0 + d))) buf1"
    using run by auto
  have whole: "inference_loop recon chunk_size overlap input_audio (instrumentals, pbar)
                 (map (\<lambda>j. i0 + int j * d) [0..<Suc n]) = Inr (out, pbar + int (Suc n))"
    unfolding list using step1 run by simp
  have shape: "map length out = map length instrumentals"
    using len1 len2 by simp
  have vals: "out ! ch ! (nat (i0 + int m * d) + k)
                = recon (map (\<lambda>c. py_slice c (i0 + int m * d) (i0 + int m * d + chunk_size)) input_audio) ! ch ! k"
    if c: "m < Suc n" "ch < length instrumentals" "nat (overlap div 2) \<le> k" "k < nat chunk_size"
      "Suc m < Suc n \<longrightarrow> int k < d"
    for m ch k
  proof (cases m)
    case 0
    have v1: "buf1 ! ch ! (nat i0 + k) = ?chunk0 ! ch ! k"
      using val1 c(2,3,4) by blast
    have "out ! ch ! (nat i0 + k) = buf1 ! ch ! (nat i0 + k)"
    proof (cases "n = 0")
      case True
      then have "rest = []" by (simp add: rest_def)
      then have "out = buf1" using run by simp
      then show ?thesis by simp
    next
      case False
      then have "int k < d" using c(5) 0 by simp
      then have "nat i0 + k < nat (i0 + d)" using Suc.prems(2) by linarith
      then show ?thesis
        using frame c(2) length1 by (intro nth_from_take) simp_all
    qed
    then show ?thesis using v1 0 by simp
  next
    case (Suc m')
    have idx: "(i0 + d) + int m' * d = i0 + int m * d"
      using Suc by (simp add: algebra_simps)
    have "out ! ch ! (nat ((i0 + d) + int m' * d) + k)
                      = recon (map (\<lambda>c. py_slice c ((i0 + d) + int m' * d)
                                       ((i0 + d) + int m' * d + chunk_size)) input_audio) ! ch ! k"
      using val2[rule_format, of m' ch k] c Suc length1 by simp
    then show ?thesis unfolding idx .
  qed
  show ?case
    apply (rule exI[of _ out])
    unfolding d_def[symmetric]
    using whole shape vals by blast
qed

text \<open>
  Claim C2. For \<open>0 \<le> overlap < chunk_size \<le> total_length\<close> the loop visits the chunk
  starts \<open>0, S, 2 S, \<dots>\<close> with \<open>S = chunk_size - overlap\<close>, exactly while
  \<open>i + chunk_size \<le> total_length\<close>; their number is
  \<open>(total_length - overlap) div S\<close>, the value of \<^verbatim>\<open>num_chunks\<close>; the last sample of the
  last chunk has an index below \<open>total_length\<close>. On a 2-channel input of that length, with
  a reconstruction that returns chunks of \<open>chunk_size\<close> samples, \<^verbatim>\<open>inference\<close> returns,
  and the loop has then run once for each of these starts: the progress bar ends at that
  number, and for every start \<open>i\<close> the output holds, clamped, the reconstruction of the
  chunk \<^verbatim>\<open>input_audio[:, i:i + chunk_size]\<close> at the positions \<open>i + k\<close> with
  \<open>overlap div 2 \<le> k < chunk_size\<close> that no later chunk writes (\<open>k < S\<close>; every such \<open>k\<close>
  for the last chunk). The samples from the end of the last chunk on are not processed:
  the output has the input's shape, is zero there, and does not depend on the input
  there. For \<open>total_length = 100000\<close>, \<open>chunk_size = 16384\<close>, \<open>overlap = 4096\<close> the count
  is \<open>(100000 - 4096) div (16384 - 4096) = 7\<close>.
\<close>

theorem chunk_coverage:
  fixes total_length chunk_size overlap :: int
  assumes "0 \<le> overlap" "overlap < chunk_size" "chunk_size \<le> total_length"
    and "length input_audio = 2" "\<forall>c \<in> set input_audio. int (length c) = total_length"
    and "\<And>x. length (recon weights x) = 2 \<and> (\<forall>c \<in> set (recon weights x). int (length c) = chunk_size)"
  shows "\<exists>starts out.
      chunk_starts total_length chunk_size overlap = Inr starts
    \<and> num_chunks total_length chunk_size overlap = Inr (int (length starts))
    \<and> int (length starts) = (total_length - overlap) div (chunk_size - overlap)
    \<and> starts = map (\<lambda>k. int k * (chunk_size - overlap)) [0..<length starts]
    \<and> starts \<noteq> []
    \<and> (\<forall>i \<in> set starts. 0 \<le> i \<and> i + chunk_size \<le> total_length \<and> i \<le> last starts)
    \<and> total_length < int (length starts) * (chunk_size - overlap) + chunk_size
    \<and> last starts + chunk_size - 1 < total_length
    \<and> inference (Inr weights) recon (Inr input_audio) chunk_size overlap
        = Inr (out, (total_length - overlap) div (chunk_size - overlap))
    \<and> map length out = map length input_audio
    \<and> (\<forall>m ch k. m < length starts \<and> ch < 2
           \<and> nat (overlap div 2) \<le> k \<and> k < nat chunk_size
           \<and> (Suc m < length starts \<longrightarrow> int k < chunk_size - overlap)
         \<longrightarrow> out ! ch ! (nat (starts ! m) + k)
               = clamp (- 1) 1
                   (recon weights (map (\<lambda>c. py_slice c (starts ! m) (starts ! m + chunk_size))
                                     input_audio) ! ch ! k))
    \<and> (\<forall>c \<in> set out. \<forall>j. nat (last starts + chunk_size) \<le> j \<and> j < length c \<longrightarrow> c ! j = 0)
    \<and> (\<forall>other. length other = 2 \<and> (\<forall>c \<in> set other. int (length c) = total_length)
          \<and> map (take (nat (last starts + chunk_size))) other
              = map (take (nat (last starts + chunk_size))) input_audio
          \<longrightarrow> inference (Inr weights) recon (Inr other) chunk_size overlap
                = Inr (out, (total_length - overlap) div (chunk_size - overlap)))"
proof -
  define starts where "starts = range_up 0 (total_length - chunk_size + 1) (chunk_size - overlap)"
  note idx = chunk_starts_normal[OF assms(2,3), folded starts_def]
  define d where "d = chunk_size - overlap"
  define n where "n = length starts"
  define bound where "bound = last starts + chunk_size"
  have bound_le: "bound \<le> total_length" using idx(8) by (simp add: bound_def)
  have in_bound: "\<forall>i \<in> set starts. 0 \<le> i \<and> 0 \<le> i \<and> i + chunk_size \<le> bound"
    using idx(6,9) by (simp add: bound_def)
  have list: "starts = map (\<lambda>j. 0 + int j * (chunk_size - overlap)) [0..<n]"
    using idx(4) by (simp add: n_def)
  have nth: "starts ! m = int m * (chunk_size - overlap)" if "m < n" for m
  proof -
    have "starts ! m = map (\<lambda>j. 0 + int j * (chunk_size - overlap)) [0..<n] ! m"
      using list by simp
    then show ?thesis using that by simp
  qed
  have ts: "int (n_samples input_audio) = total_length"
    using assms(4,5) by (rule n_samples_uniform)
  have zl: "length (zeros_like input_audio) = 2"
    using assms(4) by (simp add: zeros_like_def)
  have contract: "\<And>x. length (recon weights x) = length (zeros_like input_audio)
        \<and> (\<forall>c \<in> set (recon weights x). int (length c) = chunk_size)"
    using assms(6) zl by simp
  have lens: "\<forall>l \<in> set (map length (zeros_like input_audio)). bound \<le> int l"
    using assms(5) bound_le by (auto simp: zeros_like_def)
  have "\<exists>buf. inference_loop (recon weights) chunk_size overlap input_audio (zeros_like input_audio, 0) starts
               = Inr (buf, 0 + int (length starts))
        \<and> map length buf = map length (zeros_like input_audio)
        \<and> map (drop (nat bound)) buf = map (drop (nat bound)) (zeros_like input_audio)
        \<and> map (take (nat 0)) buf = map (take (nat 0)) (zeros_like input_audio)"
    using assms(1,2) contract in_bound lens by (rule inference_loop_frame)
  then obtain buf where loop: "inference_loop (recon weights) chunk_size overlap input_audio (zeros_like input_audio, 0) starts
               = Inr (buf, int (length starts))"
    and len: "map length buf = map length (zeros_like input_audio)"
    and tail: "map (drop (nat bound)) buf = map (drop (nat bound)) (zeros_like input_audio)"
    by auto
  have fits: "\<forall>j < n. 0 + int j * (chunk_size - overlap) + chunk_size \<le> bound"
  proof (intro allI impI)
    fix j assume j: "j < n"
    then have "starts ! j \<in> set starts" by (simp add: n_def)
    then have "starts ! j + chunk_size \<le> bound" using in_bound by blast
    then show "0 + int j * (chunk_size - overlap) + chunk_size \<le> bound"
      using nth[OF j] by simp
  qed
  have zero: "(0::int) \<le> 0" by simp
  have "\<exists>out. inference_loop (recon weights) chunk_size overlap input_audio (zeros_like input_audio, 0)
                 (map (\<lambda>j. 0 + int j * (chunk_size - overlap)) [0..<n])
               = Inr (out, 0 + int n)
           \<and> map length out = map length (zeros_like input_audio)
           \<and> (\<forall>m ch k. m < n \<and> ch < length (zeros_like input_audio)
                  \<and> nat (overlap div 2) \<le> k \<and> k < nat chunk_size
                  \<and> (Suc m < n \<longrightarrow> int k < chunk_size - overlap)
                \<longrightarrow> out ! ch ! (nat (0 + int m * (chunk_size - overlap)) + k)
                      = recon weights (map (\<lambda>c. py_slice c (0 + int m * (chunk_size - overlap))
                                       (0 + int m * (chunk_size - overlap) + chunk_size)) input_audio) ! ch ! k)"
    using assms(1,2) contract zero fits lens by (rule inference_loop_chunks)
  then obtain buf2 where loop2: "inference_loop (recon weights) chunk_size overlap input_audio (zeros_like input_audio, 0)
                 (map (\<lambda>j. 0 + int j * (chunk_size - overlap)) [0..<n]) = Inr (buf2, 0 + int n)"
    and content2: "\<forall>m ch k. m < n \<and> ch < length (zeros_like input_audio)
                  \<and> nat (overlap div 2) \<le> k \<and> k < nat chunk_size
                  \<and> (Suc m < n \<longrightarrow> int k < chunk_size - overlap)
                \<longrightarrow> buf2 ! ch ! (nat (0 + int m * (chunk_size - overlap)) + k)
                      = recon weights (map (\<lambda>c. py_slice c (0 + int m * (chunk_size - overlap))
                                       (0 + int m * (chunk_size - overlap) + chunk_size)) input_audio) ! ch ! k"
    by blast
  have same: "buf2 = buf"
    using loop loop2 list by simp
  have buf_len: "length buf = 2"
    using len zl by (metis length_map)
  have chan_len: "int (length (buf ! ch)) = total_length" if "ch < 2" for ch
  proof -
    have "length (buf ! ch) = map length buf ! ch" using that buf_len by simp
    also have "\<dots> = map length (zeros_like input_audio) ! ch" using len by simp
    also have "\<dots> = length (input_audio ! ch)"
      using that assms(4) by (simp add: zeros_like_def)
    finally show ?thesis using assms(4,5) that by simp
  qed
  define out where "out = map (map (clamp (- 1) 1)) buf"
  have count: "int (length starts) = (total_length - overlap) div (chunk_size - overlap)"
    using idx(3) .
  have run: "inference (Inr weights) recon (Inr input_audio) chunk_size overlap
      = Inr (out, (total_length - overlap) div (chunk_size - overlap))"
    using assms(4) by (simp add: inference_def n_channels_def ts idx(1,2) loop out_def count)
  have "map length out = map length buf" by (simp add: out_def comp_def)
  then have shape: "map length out = map length input_audio"
    using len by (simp add: zeros_like_def comp_def)
  have content: "out ! ch ! (nat (starts ! m) + k)
               = clamp (- 1) 1
                   (recon weights (map (\<lambda>c. py_slice c (starts ! m) (starts ! m + chunk_size))
                                     input_audio) ! ch ! k)"
    if c: "m < length starts" "ch < 2" "nat (overlap div 2) \<le> k" "k < nat chunk_size"
      "Suc m < length starts \<longrightarrow> int k < chunk_size - overlap" for m ch k
  proof -
    have m: "m < n" using c(1) by (simp add: n_def)
    have s: "0 + int m * (chunk_size - overlap) = starts ! m"
      using nth[OF m] by simp
    have "starts ! m \<in> set starts" using c(1) by simp
    then have sm: "0 \<le> starts ! m" "starts ! m + chunk_size \<le> total_length"
      using idx(6) by blast+
    have v: "buf ! ch ! (nat (starts ! m) + k)
        = recon weights (map (\<lambda>c. py_slice c (starts ! m) (starts ! m + chunk_size)) input_audio) ! ch ! k"
      using content2[rule_format, of m ch k] c(2-5) m zl unfolding s same n_def by simp
    have "int (nat (starts ! m) + k) < total_length"
      using sm c(4) by linarith
    then have p: "nat (starts ! m) + k < length (buf ! ch)"
      using chan_len[OF c(2)] by linarith
    have "out ! ch ! (nat (starts ! m) + k) = clamp (- 1) 1 (buf ! ch ! (nat (starts ! m) + k))"
      unfolding out_def using c(2) buf_len p by simp
    then show ?thesis using v by simp
  qed
  have silent: "\<forall>c \<in> set out. \<forall>j. nat bound \<le> j \<and> j < length c \<longrightarrow> c ! j = 0"
    using zeros_like_tail[OF tail] unfolding out_def by blast
  have indep: "inference (Inr weights) recon (Inr other) chunk_size overlap
      = Inr (out, (total_length - overlap) div (chunk_size - overlap))"
    if other: "length other = 2" "\<forall>c \<in> set other. int (length c) = total_length"
      "map (take (nat bound)) other = map (take (nat bound)) input_audio" for other
  proof -
    have ts': "int (n_samples other) = total_length"
      using other(1,2) by (rule n_samples_uniform)
    have zeros: "zeros_like other = zeros_like input_audio"
      using zeros_like_uniform[OF other(1,2)] zeros_like_uniform[OF assms(4,5)] by simp
    have "\<forall>i \<in> set starts. map (\<lambda>c. py_slice c i (i + chunk_size)) other
        = map (\<lambda>c. py_slice c i (i + chunk_size)) input_audio"
    proof
      fix i assume i: "i \<in> set starts"
      then have "0 \<le> i" "i + chunk_size \<le> bound" using in_bound by simp_all
      moreover have "0 \<le> i + chunk_size" using \<open>0 \<le> i\<close> assms(1,2) by simp
      ultimately show "map (\<lambda>c. py_slice c i (i + chunk_size)) other
        = map (\<lambda>c. py_slice c i (i + chunk_size)) input_audio"
        using other(3) by (intro chunks_from_prefix[where B = "nat bound"]) simp_all
    qed
    then have "inference_loop (recon weights) chunk_size overlap other (zeros_like input_audio, 0) starts
        = inference_loop (recon weights) chunk_size overlap input_audio (zeros_like input_audio, 0) starts"
      by (rule inference_loop_input)
    then show ?thesis
      using other(1) by (simp add: inference_def n_channels_def ts' idx(1,2) zeros loop out_def count)
  qed
  have bounds: "\<forall>i \<in> set starts. 0 \<le> i \<and> i + chunk_size \<le> total_length \<and> i \<le> last starts"
    using idx(6,9) by blast
  show ?thesis
    apply (rule exI[of _ starts])
    apply (rule exI[of _ out])
    apply (intro conjI)
    subgoal using idx(1) .
    subgoal using idx(2) .
    subgoal using idx(3) .
    subgoal using idx(4) .
    subgoal using idx(5) .
    subgoal using bounds .
    subgoal using idx(7) .
    subgoal using idx(8) .
    subgoal using run .
    subgoal using shape .
    subgoal using content by blast
    subgoal using silent unfolding bound_def .
    subgoal using indep unfolding bound_def by blast
    done
qed

theorem chunk_coverage_witness:
  "num_chunks 100000 16384 4096 = Inr 7
   \<and> (100000 - 4096) div (16384 - 4096) = (7::int)
   \<and> chunk_starts 100000 16384 4096 = Inr [0, 12288, 24576, 36864, 49152, 61440, 73728]
   \<and> (\<exists>out. inference (Inr ()) (\<lambda>_ _. [replicate 16384 0, replicate 16384 0])
               (Inr [replicate 100000 1, replicate 100000 1]) 16384 4096 = Inr (out, 7)
          \<and> map length out = [100000, 100000])"
proof -
  have a: "(0::int) \<le> 4096" "(4096::int) < 16384" "(16384::int) \<le> 100000" by simp_all
  have b: "length [replicate 100000 (1::real), replicate 100000 1] = 2" by simp
  have c: "\<forall>c \<in> set [replicate 100000 (1::real), replicate 100000 1]. int (length c) = 100000"
    by simp
  have r: "\<And>x. length ((\<lambda>_ _. [replicate 16384 (0::real), replicate 16384 0]) () x) = 2
      \<and> (\<forall>c \<in> set ((\<lambda>_ _. [replicate 16384 (0::real), replicate 16384 0]) () x). int (length c) = 16384)"
    by simp
  have "\<exists>starts out.
      chunk_starts 100000 16384 4096 = Inr starts
    \<and> num_chunks 100000 16384 4096 = Inr (int (length starts))
    \<and> inference (Inr ()) (\<lambda>_ _. [replicate 16384 0, replicate 16384 0])
         (Inr [replicate 100000 1, replicate 100000 1]) 16384 4096
        = Inr (out, (100000 - 4096) div (16384 - 4096))
    \<and> map length out = map length [replicate 100000 (1::real), replicate 100000 1]"
    using chunk_coverage [of 4096 16384 100000 "[replicate 100000 1, replicate 100000 1]"
        "\<lambda>_ _. [replicate 16384 0, replicate 16384 0]" "()", OF a b c r]
    by blast
  then obtain starts out where
      s: "chunk_starts 100000 16384 4096 = Inr starts"
    and n: "num_chunks 100000 16384 4096 = Inr (int (length starts))"
    and run: "inference (Inr ()) (\<lambda>_ _. [replicate 16384 0, replicate 16384 0])
         (Inr [replicate 100000 1, replicate 100000 1]) 16384 4096
        = Inr (out, (100000 - 4096) div (16384 - 4096))"
    and len: "map length out = map length [replicate 100000 (1::real), replicate 100000 1]"
    by blast
  have cs: "chunk_starts 100000 16384 4096 = Inr [0, 12288, 24576, 36864, 49152, 61440, 73728]"
    by (simp add: chunk_starts_def py_range_def range_up_unfold range_up_empty)
  with s have "starts = [0, 12288, 24576, 36864, 49152, 61440, 73728]" by simp
  with n have "num_chunks 100000 16384 4096 = Inr 7" by simp
  moreover have "map length out = [100000, 100000]" using len by simp
  moreover have "(100000 - 4096) div (16384 - 4096) = (7::int)" by simp
  ultimately show ?thesis using cs run by simp
qed

section \<open>The cross-fade of the later chunks\<close>

lemma upt_four: "[0..<4] = [0, 1, 2, 3]"
  by (simp add: upt_rec)

lemma ramps_of_four:
  "linspace 0 1 4 = Inr [0, 1/3, 2/3, 1]" "linspace 1 0 4 = Inr [1, 2/3, 1/3, 0]"
  by (simp_all add: linspace_def linspace_point_def upt_four)

lemma starts_12_10_8: "chunk_starts 12 10 8 = Inr [0, 2]"
  by (simp add: chunk_starts_def py_range_def range_up_unfold range_up_empty)

lemma starts_14_10_8: "chunk_starts 14 10 8 = Inr [0, 2, 4]"
  by (simp add: chunk_starts_def py_range_def range_up_unfold range_up_empty)

lemmas step_defs = chunk_step_def overlap_add_def overlap_add_channel_def cross_fade_def
  place_rest_def py_slice_def norm_index_def broadcast_to_def inplace_def set_slice_def Let_def
  ramps_of_four

lemma ones_first:
  "chunk_step (\<lambda>_. [[1,1,1,1,1,1,1,1,1,1], [1,1,1,1,1,1,1,1,1,1]]) 10 8
     [[0,0,0,0,0,0,0,0,0,0,0,0], [0,0,0,0,0,0,0,0,0,0,0,0]]
     [[0,0,0,0,0,0,0,0,0,0,0,0], [0,0,0,0,0,0,0,0,0,0,0,0]] 0
   = Inr [[0,0,0,0,1,1,1,1,1,1,0,0], [0,0,0,0,1,1,1,1,1,1,0,0]]"
  by (simp add: step_defs)

lemma ones_second:
  "chunk_step (\<lambda>_. [[1,1,1,1,1,1,1,1,1,1], [1,1,1,1,1,1,1,1,1,1]]) 10 8
     [[0,0,0,0,0,0,0,0,0,0,0,0], [0,0,0,0,0,0,0,0,0,0,0,0]]
     [[0,0,0,0,1,1,1,1,1,1,0,0], [0,0,0,0,1,1,1,1,1,1,0,0]] 2
   = Inr [[0,0,0,1/3,1,1,1,1,1,1,1,1], [0,0,0,1/3,1,1,1,1,1,1,1,1]]"
  by (simp add: step_defs)

lemma ones_run:
  "inference (Inr ()) (\<lambda>_ _. [[1,1,1,1,1,1,1,1,1,1], [1,1,1,1,1,1,1,1,1,1]])
     (Inr [[0,0,0,0,0,0,0,0,0,0,0,0], [0,0,0,0,0,0,0,0,0,0,0,0]]) 10 8
   = Inr ([[0,0,0,1/3,1,1,1,1,1,1,1,1], [0,0,0,1/3,1,1,1,1,1,1,1,1]], 2)"
  by (simp add: inference_def n_channels_def n_samples_def num_chunks_def py_floordiv_def
      starts_12_10_8 zeros_like_def ones_first ones_second clamp_def)

lemma held_first:
  "chunk_step (map (\<lambda>c. replicate 10 (hd c))) 10 8
     [[1,0,0,0,0,0,0,0,0,0,0,0,0,0], [1,0,0,0,0,0,0,0,0,0,0,0,0,0]]
     [[0,0,0,0,0,0,0,0,0,0,0,0,0,0], [0,0,0,0,0,0,0,0,0,0,0,0,0,0]] 0
   = Inr [[0,0,0,0,1,1,1,1,1,1,0,0,0,0], [0,0,0,0,1,1,1,1,1,1,0,0,0,0]]"
  by (simp add: step_defs numeral_eq_Suc)

lemma held_second:
  "chunk_step (map (\<lambda>c. replicate 10 (hd c))) 10 8
     [[1,0,0,0,0,0,0,0,0,0,0,0,0,0], [1,0,0,0,0,0,0,0,0,0,0,0,0,0]]
     [[0,0,0,0,1,1,1,1,1,1,0,0,0,0], [0,0,0,0,1,1,1,1,1,1,0,0,0,0]] 2
   = Inr [[0,0,0,0,1/3,0,0,0,0,0,0,0,0,0], [0,0,0,0,1/3,0,0,0,0,0,0,0,0,0]]"
  by (simp add: step_defs numeral_eq_Suc)

lemma held_third:
  "chunk_step (map (\<lambda>c. replicate 10 (hd c))) 10 8
     [[1,0,0,0,0,0,0,0,0,0,0,0,0,0], [1,0,0,0,0,0,0,0,0,0,0,0,0,0]]
     [[0,0,0,0,1/3,0,0,0,0,0,0,0,0,0], [0,0,0,0,1/3,0,0,0,0,0,0,0,0,0]] 4
   = Inr [[0,0,0,0,1/3,0,0,0,0,0,0,0,0,0], [0,0,0,0,1/3,0,0,0,0,0,0,0,0,0]]"
  by (simp add: step_defs numeral_eq_Suc)

lemma held_run:
  "inference (Inr ()) (\<lambda>_. map (\<lambda>c. replicate 10 (hd c)))
     (Inr [[1,0,0,0,0,0,0,0,0,0,0,0,0,0], [1,0,0,0,0,0,0,0,0,0,0,0,0,0]]) 10 8
   = Inr ([[0,0,0,0,1/3,0,0,0,0,0,0,0,0,0], [0,0,0,0,1/3,0,0,0,0,0,0,0,0,0]], 3)"
  by (simp add: inference_def n_channels_def n_samples_def num_chunks_def py_floordiv_def
      starts_14_10_8 zeros_like_def held_first held_second held_third clamp_def)

lemma starts_14_10_6: "chunk_starts 14 10 6 = Inr [0, 4]"
  by (simp add: chunk_starts_def py_range_def range_up_unfold range_up_empty)

text \<open>
  Claim C3, amended. Let \<open>0 \<le> overlap < chunk_size \<le> total_length\<close>, on a 2-channel input
  with a reconstruction that returns chunks of \<open>chunk_size\<close> samples, and let \<open>i\<close> be the
  start of chunk \<open>m > 0\<close>; \<open>before\<close> is the output buffer when the loop has processed the
  chunks \<open>0, \<dots>, m - 1\<close>, and \<open>after\<close> the buffer when it has processed chunk \<open>m\<close> too, which
  is one \<^verbatim>\<open>chunk_step\<close> later. With \<open>fade_in = linspace(0, 1, overlap div 2)\<close> and
  \<open>fade_out = linspace(1, 0, overlap div 2)\<close>, for every \<open>k < overlap div 2\<close>
  \<open>after[i + k] = fade_out[k] * before[i + k] + fade_in[k] * inst_chunk[k]\<close>, where
  \<open>inst_chunk\<close> is the reconstruction of \<^verbatim>\<open>input_audio[:, i:i + chunk_size]\<close>; the
  fade-in ramp is linear, both weights are non-negative and they sum to 1 at every position,
  so the sample is a convex combination of the existing buffer content and the new
  chunk's reconstruction. The rest of the chunk, \<open>[overlap div 2, chunk_size)\<close>, is written
  unchanged. The existing buffer content is the reconstruction of the previous chunk
  (its sample \<open>S + k\<close>, \<open>S = chunk_size - overlap\<close>) at the positions of the cross-fade
  region that the previous chunk wrote directly, those with \<open>overlap div 2 \<le> S + k\<close>: all
  of the region when \<open>overlap div 2 \<le> S\<close>, as for the defaults 16384 and 4096. The value
  reaches the output of \<^verbatim>\<open>inference\<close>, clamped, at the positions that no later chunk
  writes (\<open>k < S\<close>; every position for the last chunk). Arithmetic is exact.
\<close>

theorem cross_fade_convex:
  fixes total_length chunk_size overlap :: int
  assumes "0 \<le> overlap" "overlap < chunk_size" "chunk_size \<le> total_length"
    and "length input_audio = 2" "\<forall>c \<in> set input_audio. int (length c) = total_length"
    and "\<And>x. length (recon weights x) = 2 \<and> (\<forall>c \<in> set (recon weights x). int (length c) = chunk_size)"
    and "chunk_starts total_length chunk_size overlap = Inr starts"
    and "0 < m" "m < length starts"
  shows "\<exists>fade_in fade_out before after out.
      linspace 0 1 (overlap div 2) = Inr fade_in
    \<and> linspace 1 0 (overlap div 2) = Inr fade_out
    \<and> length fade_in = nat (overlap div 2)
    \<and> length fade_out = nat (overlap div 2)
    \<and> starts ! m = int m * (chunk_size - overlap)
    \<and> starts ! (m - 1) + (chunk_size - overlap) = starts ! m
    \<and> inference_loop (recon weights) chunk_size overlap input_audio (zeros_like input_audio, 0)
          (take m starts) = Inr (before, int m)
    \<and> chunk_step (recon weights) chunk_size overlap input_audio before (starts ! m) = Inr after
    \<and> inference_loop (recon weights) chunk_size overlap input_audio (zeros_like input_audio, 0)
          (take (Suc m) starts) = Inr (after, int m + 1)
    \<and> inference (Inr weights) recon (Inr input_audio) chunk_size overlap
          = Inr (out, int (length starts))
    \<and> (\<forall>ch k. ch < 2 \<and> k < nat (overlap div 2) \<longrightarrow>
          after ! ch ! (nat (starts ! m) + k)
            = fade_out ! k * before ! ch ! (nat (starts ! m) + k)
              + fade_in ! k * recon weights (map (\<lambda>c. py_slice c (starts ! m) (starts ! m + chunk_size))
                                               input_audio) ! ch ! k
        \<and> fade_in ! k + fade_out ! k = 1
        \<and> 0 \<le> fade_in ! k \<and> 0 \<le> fade_out ! k
        \<and> fade_in ! k * (real_of_int (overlap div 2) - 1) = (if overlap div 2 = 1 then 0 else real k))
    \<and> (\<forall>ch k. ch < 2 \<and> nat (overlap div 2) \<le> k \<and> k < nat chunk_size \<longrightarrow>
          after ! ch ! (nat (starts ! m) + k)
            = recon weights (map (\<lambda>c. py_slice c (starts ! m) (starts ! m + chunk_size))
                               input_audio) ! ch ! k)
    \<and> (\<forall>ch k. ch < 2 \<and> k < nat (overlap div 2)
            \<and> overlap div 2 \<le> chunk_size - overlap + int k \<longrightarrow>
          before ! ch ! (nat (starts ! m) + k)
            = recon weights (map (\<lambda>c. py_slice c (starts ! (m - 1)) (starts ! (m - 1) + chunk_size))
                               input_audio) ! ch ! (nat (chunk_size - overlap) + k))
    \<and> (\<forall>ch k. ch < 2 \<and> k < nat (overlap div 2)
            \<and> (Suc m < length starts \<longrightarrow> int k < chunk_size - overlap) \<longrightarrow>
          out ! ch ! (nat (starts ! m) + k) = clamp (- 1) 1 (after ! ch ! (nat (starts ! m) + k)))"
proof -
  define d where "d = chunk_size - overlap"
  have d: "0 < d" using assms(2) by (simp add: d_def)
  define n where "n = length starts"
  define i where "i = starts ! m"
  define c where "c = nat (overlap div 2)"
  have cf: "overlap div 2 = int c" using assms(1) by (simp add: c_def)
  have c_le: "int c \<le> overlap"
  proof -
    have "overlap div 2 \<le> overlap" using assms(1) by simp
    then show ?thesis using cf by simp
  qed
  note idx0 = chunk_starts_normal[OF assms(2,3)]
  have st: "starts = range_up 0 (total_length - chunk_size + 1) (chunk_size - overlap)"
    using idx0(1) assms(7) by simp
  note idx = idx0[folded st]
  have list: "starts = map (\<lambda>j. 0 + int j * d) [0..<n]"
    using idx(4) by (simp add: n_def d_def)
  have nth: "starts ! j = int j * d" if "j < n" for j
  proof -
    have "starts ! j = map (\<lambda>j. 0 + int j * d) [0..<n] ! j"
      using list by simp
    then show ?thesis using that by simp
  qed
  have m: "m < n" using assms(9) by (simp add: n_def)
  have i_eq: "i = int m * d" unfolding i_def using nth[OF m] .
  have i_pos: "0 < i" unfolding i_eq using assms(8) d by simp
  have prev_eq: "starts ! (m - 1) = int (m - 1) * d"
    using nth[of "m - 1"] m by simp
  have prev_next: "starts ! (m - 1) + d = i"
  proof -
    have "int (m - 1) = int m - 1" using assms(8) by simp
    then show ?thesis unfolding prev_eq i_eq by (simp add: algebra_simps)
  qed
  have in_total: "0 \<le> x \<and> x + chunk_size \<le> total_length" if "x \<in> set starts" for x
    using idx(6) that by blast
  have "starts ! m \<in> set starts" using assms(9) by simp
  then have i_fits: "i + chunk_size \<le> total_length"
    using in_total unfolding i_def by blast
  have ts: "int (n_samples input_audio) = total_length"
    using assms(4,5) by (rule n_samples_uniform)
  have zl: "length (zeros_like input_audio) = 2"
    using assms(4) by (simp add: zeros_like_def)
  have contract: "\<And>x. length (recon weights x) = length (zeros_like input_audio)
        \<and> (\<forall>c \<in> set (recon weights x). int (length c) = chunk_size)"
    using assms(6) zl by simp
  have lens: "\<forall>l \<in> set (map length (zeros_like input_audio)). total_length \<le> int l"
    using assms(5) by (auto simp: zeros_like_def)
  have all_len: "\<forall>l \<in> set (map length (zeros_like input_audio)). int l = total_length"
    using assms(5) by (auto simp: zeros_like_def)

  (* The ramps. *)
  define fade_in where "fade_in = map (linspace_point 0 1 (int c)) [0..<c]"
  define fade_out where "fade_out = map (linspace_point 1 0 (int c)) [0..<c]"
  have l1: "linspace 0 1 (overlap div 2) = Inr fade_in"
    unfolding cf fade_in_def by (rule linspace_nat)
  have l2: "linspace 1 0 (overlap div 2) = Inr fade_out"
    unfolding cf fade_out_def by (rule linspace_nat)
  have len_in: "length fade_in = nat (overlap div 2)" and len_out: "length fade_out = nat (overlap div 2)"
    by (simp_all add: fade_in_def fade_out_def c_def)

  (* The chunks before chunk m. *)
  have take_m: "take m starts = map (\<lambda>j. 0 + int j * d) [0..<m]"
  proof -
    have "take m starts = map (\<lambda>j. 0 + int j * d) (take m [0..<n])"
      using list by (metis take_map)
    also have "take m [0..<n] = [0..<m]" using m by simp
    finally show ?thesis .
  qed
  have fits: "\<forall>j < m. 0 + int j * (chunk_size - overlap) + chunk_size \<le> total_length"
  proof (intro allI impI)
    fix j assume j: "j < m"
    then have jn: "j < n" using m by simp
    then have "starts ! j \<in> set starts" by (simp add: n_def)
    then have "starts ! j + chunk_size \<le> total_length" using in_total by blast
    then show "0 + int j * (chunk_size - overlap) + chunk_size \<le> total_length"
      using nth[OF jn] by (simp add: d_def)
  qed
  have zero: "(0::int) \<le> 0" by simp
  have "\<exists>out. inference_loop (recon weights) chunk_size overlap input_audio (zeros_like input_audio, 0)
                 (map (\<lambda>j. 0 + int j * (chunk_size - overlap)) [0..<m])
               = Inr (out, 0 + int m)
           \<and> map length out = map length (zeros_like input_audio)
           \<and> (\<forall>m' ch k. m' < m \<and> ch < length (zeros_like input_audio)
                  \<and> nat (overlap div 2) \<le> k \<and> k < nat chunk_size
                  \<and> (Suc m' < m \<longrightarrow> int k < chunk_size - overlap)
                \<longrightarrow> out ! ch ! (nat (0 + int m' * (chunk_size - overlap)) + k)
                      = recon weights (map (\<lambda>c. py_slice c (0 + int m' * (chunk_size - overlap))
                                       (0 + int m' * (chunk_size - overlap) + chunk_size)) input_audio) ! ch ! k)"
    using assms(1,2) contract zero fits lens by (rule inference_loop_chunks)
  then obtain before where
      loop_before0: "inference_loop (recon weights) chunk_size overlap input_audio (zeros_like input_audio, 0)
                 (map (\<lambda>j. 0 + int j * d) [0..<m]) = Inr (before, 0 + int m)"
    and len_before: "map length before = map length (zeros_like input_audio)"
    and content_before: "\<forall>m' ch k. m' < m \<and> ch < length (zeros_like input_audio)
                  \<and> nat (overlap div 2) \<le> k \<and> k < nat chunk_size
                  \<and> (Suc m' < m \<longrightarrow> int k < d)
                \<longrightarrow> before ! ch ! (nat (0 + int m' * d) + k)
                      = recon weights (map (\<lambda>c. py_slice c (0 + int m' * d)
                                       (0 + int m' * d + chunk_size)) input_audio) ! ch ! k"
    unfolding d_def by blast
  have loop_before: "inference_loop (recon weights) chunk_size overlap input_audio (zeros_like input_audio, 0)
          (take m starts) = Inr (before, int m)"
    using loop_before0 take_m by simp
  have before2: "length before = 2"
    using len_before zl by (metis length_map)
  have contract_before: "\<And>x. length (recon weights x) = length before
        \<and> (\<forall>c \<in> set (recon weights x). int (length c) = chunk_size)"
    using assms(6) before2 by simp
  have lens_before: "\<forall>l \<in> set (map length before). i + chunk_size \<le> int l"
    using all_len i_fits unfolding len_before by simp

  (* Chunk m. *)
  let ?chunk = "recon weights (map (\<lambda>c. py_slice c i (i + chunk_size)) input_audio)"
  have i0: "0 \<le> i" using i_pos by simp
  have "\<exists>out. chunk_step (recon weights) chunk_size overlap input_audio before i = Inr out
           \<and> map length out = map length before
           \<and> (\<forall>ch k. ch < length before \<and> nat (overlap div 2) \<le> k \<and> k < nat chunk_size
                 \<longrightarrow> out ! ch ! (nat i + k) = ?chunk ! ch ! k)
           \<and> (\<forall>ch k. ch < length before \<and> k < nat (overlap div 2)
                 \<longrightarrow> out ! ch ! (nat i + k)
                       = before ! ch ! (nat i + k) * linspace_point 1 0 (overlap div 2) k
                         + ?chunk ! ch ! k * linspace_point 0 1 (overlap div 2) k)"
    using chunk_step_facts[of i overlap chunk_size "recon weights" before input_audio,
        OF i0 assms(1,2) contract_before lens_before] i_pos
    by blast
  then obtain after where step: "chunk_step (recon weights) chunk_size overlap input_audio before i = Inr after"
    and len_after: "map length after = map length before"
    and rest: "\<forall>ch k. ch < length before \<and> nat (overlap div 2) \<le> k \<and> k < nat chunk_size
                 \<longrightarrow> after ! ch ! (nat i + k) = ?chunk ! ch ! k"
    and head: "\<forall>ch k. ch < length before \<and> k < nat (overlap div 2)
                 \<longrightarrow> after ! ch ! (nat i + k)
                       = before ! ch ! (nat i + k) * linspace_point 1 0 (overlap div 2) k
                         + ?chunk ! ch ! k * linspace_point 0 1 (overlap div 2) k"
    by blast
  have take_Suc: "take (Suc m) starts = take m starts @ [i]"
    unfolding i_def using assms(9) by (rule take_Suc_conv_app_nth)
  have loop_after: "inference_loop (recon weights) chunk_size overlap input_audio (zeros_like input_audio, 0)
          (take (Suc m) starts) = Inr (after, int m + 1)"
    unfolding take_Suc inference_loop_append using loop_before step by simp
  have after2: "length after = 2"
    using len_after before2 by (metis length_map)
  have contract_after: "\<And>x. length (recon weights x) = length after
        \<and> (\<forall>c \<in> set (recon weights x). int (length c) = chunk_size)"
    using assms(6) after2 by simp
  have lens_after: "\<forall>l \<in> set (map length after). total_length \<le> int l"
    using all_len unfolding len_after len_before by simp

  (* The chunks after chunk m. *)
  define later where "later = drop (Suc m) starts"
  have split: "starts = take (Suc m) starts @ later"
    by (simp add: later_def)
  have later_elems: "\<forall>x \<in> set later. 0 \<le> x \<and> i + d \<le> x \<and> x + chunk_size \<le> total_length"
  proof
    fix x assume "x \<in> set later"
    then obtain k where k: "k < length later" "later ! k = x"
      unfolding in_set_conv_nth by blast
    define j where "j = Suc m + k"
    have j: "Suc m \<le> j" "j < length starts" "starts ! j = x"
      using k by (simp_all add: j_def later_def)
    have x: "x = int j * d" using nth[of j] j(2,3) by (simp add: n_def)
    have "x \<in> set starts" using j(2,3) by auto
    then have b: "0 \<le> x \<and> x + chunk_size \<le> total_length" using in_total by blast
    have "int m + 1 \<le> int j" using j(1) by simp
    then have "(int m + 1) * d \<le> int j * d" using d by (simp add: mult_right_mono)
    then have "i + d \<le> x" unfolding i_eq x by (simp add: algebra_simps)
    then show "0 \<le> x \<and> i + d \<le> x \<and> x + chunk_size \<le> total_length"
      using b by simp
  qed
  have "\<exists>buf. inference_loop (recon weights) chunk_size overlap input_audio (after, int m + 1) later
               = Inr (buf, int m + 1 + int (length later))
        \<and> map length buf = map length after
        \<and> map (drop (nat total_length)) buf = map (drop (nat total_length)) after
        \<and> map (take (nat (i + d))) buf = map (take (nat (i + d))) after"
    using assms(1,2) contract_after later_elems lens_after by (rule inference_loop_frame)
  then obtain buf where loop_later: "inference_loop (recon weights) chunk_size overlap input_audio (after, int m + 1) later
               = Inr (buf, int m + 1 + int (length later))"
    and len_buf: "map length buf = map length after"
    and kept: "map (take (nat (i + d))) buf = map (take (nat (i + d))) after"
    by blast
  have count: "int m + 1 + int (length later) = int (length starts)"
    using assms(9) by (simp add: later_def)
  have "inference_loop (recon weights) chunk_size overlap input_audio (zeros_like input_audio, 0)
          (take (Suc m) starts @ later) = Inr (buf, int (length starts))"
    unfolding inference_loop_append using loop_after loop_later count by simp
  then have loop_all: "inference_loop (recon weights) chunk_size overlap input_audio (zeros_like input_audio, 0)
          starts = Inr (buf, int (length starts))"
    using split by simp
  define out where "out = map (map (clamp (- 1) 1)) buf"
  have run: "inference (Inr weights) recon (Inr input_audio) chunk_size overlap
      = Inr (out, int (length starts))"
    using assms(4) by (simp add: inference_def n_channels_def ts idx(1,2) loop_all out_def)
  have buf2: "length buf = 2"
    using len_buf after2 by (metis length_map)
  have buf_same: "buf = after" if "\<not> Suc m < length starts"
  proof -
    have "later = []" using that by (simp add: later_def)
    then show ?thesis using loop_later by simp
  qed
  have chan_len: "int (length (buf ! ch)) = total_length" if "ch < 2" for ch
  proof -
    have "length (buf ! ch) = map length buf ! ch" using that buf2 by simp
    also have "\<dots> = map length (zeros_like input_audio) ! ch"
      using len_buf len_after len_before by simp
    also have "\<dots> = length (input_audio ! ch)"
      using that assms(4) by (simp add: zeros_like_def)
    finally show ?thesis using assms(4,5) that by simp
  qed

  (* The four properties of the cross-fade region. *)
  have weights: "after ! ch ! (nat i + k)
            = fade_out ! k * before ! ch ! (nat i + k) + fade_in ! k * ?chunk ! ch ! k
        \<and> fade_in ! k + fade_out ! k = 1
        \<and> 0 \<le> fade_in ! k \<and> 0 \<le> fade_out ! k
        \<and> fade_in ! k * (real_of_int (overlap div 2) - 1) = (if overlap div 2 = 1 then 0 else real k)"
    if "ch < 2" "k < nat (overlap div 2)" for ch k
  proof -
    have k: "k < c" using that(2) by (simp add: c_def)
    have fi: "fade_in ! k = linspace_point 0 1 (int c) k" and fo: "fade_out ! k = linspace_point 1 0 (int c) k"
      using k by (simp_all add: fade_in_def fade_out_def)
    have sum1: "fade_in ! k + fade_out ! k = 1"
      unfolding fi fo by (rule linspace_point_sum)
    have nonneg: "0 \<le> fade_in ! k"
      unfolding fi using k by (rule linspace_point_in_nonneg)
    have "fade_in ! k \<le> 1"
      unfolding fi using k by (rule linspace_point_in_le1)
    then have nonneg': "0 \<le> fade_out ! k" using sum1 by linarith
    have lin: "fade_in ! k * (real_of_int (overlap div 2) - 1) = (if overlap div 2 = 1 then 0 else real k)"
      unfolding fi cf using linspace_point_in_linear[of c k] by simp
    have "after ! ch ! (nat i + k)
        = fade_out ! k * before ! ch ! (nat i + k) + fade_in ! k * ?chunk ! ch ! k"
      using head that before2 unfolding fi fo cf by (simp add: mult.commute)
    then show ?thesis using sum1 nonneg nonneg' lin by blast
  qed
  have written: "after ! ch ! (nat i + k) = ?chunk ! ch ! k"
    if "ch < 2" "nat (overlap div 2) \<le> k" "k < nat chunk_size" for ch k
    using rest that before2 by simp
  have link: "before ! ch ! (nat i + k)
      = recon weights (map (\<lambda>c. py_slice c (starts ! (m - 1)) (starts ! (m - 1) + chunk_size))
                               input_audio) ! ch ! (nat d + k)"
    if ck: "ch < 2" "k < nat (overlap div 2)" "overlap div 2 \<le> d + int k" for ch k
  proof -
    have m1: "m - 1 < m" using assms(8) by simp
    have s: "0 + int (m - 1) * d = starts ! (m - 1)" using prev_eq by simp
    have "k < c" using ck(2) unfolding c_def .
    then have kc: "int k < int c" by simp
    have lo: "nat (overlap div 2) \<le> nat d + k" using ck(3) d by linarith
    have hi: "nat d + k < nat chunk_size" using kc c_le d by (simp add: d_def)
    have "before ! ch ! (nat (0 + int (m - 1) * d) + (nat d + k))
        = recon weights (map (\<lambda>c. py_slice c (0 + int (m - 1) * d)
                                 (0 + int (m - 1) * d + chunk_size)) input_audio) ! ch ! (nat d + k)"
      using content_before[rule_format, of "m - 1" ch "nat d + k"] m1 ck(1) zl lo hi by simp
    then have v: "before ! ch ! (nat (starts ! (m - 1)) + (nat d + k))
        = recon weights (map (\<lambda>c. py_slice c (starts ! (m - 1))
                                 (starts ! (m - 1) + chunk_size)) input_audio) ! ch ! (nat d + k)"
      unfolding s .
    have "0 \<le> starts ! (m - 1)" unfolding prev_eq using d by simp
    then have pos: "nat (starts ! (m - 1)) + (nat d + k) = nat i + k"
      using prev_next d by linarith
    show ?thesis using v unfolding pos .
  qed
  have final: "out ! ch ! (nat i + k) = clamp (- 1) 1 (after ! ch ! (nat i + k))"
    if ck: "ch < 2" "k < nat (overlap div 2)" "Suc m < length starts \<longrightarrow> int k < d" for ch k
  proof -
    have "k < c" using ck(2) unfolding c_def .
    then have kc: "int k < int c" by simp
    then have "int k < chunk_size" using c_le assms(2) by linarith
    then have "int (nat i + k) < total_length" using i_fits i0 by linarith
    then have p: "nat i + k < length (buf ! ch)"
      using chan_len[OF ck(1)] by linarith
    have o: "out ! ch ! (nat i + k) = clamp (- 1) 1 (buf ! ch ! (nat i + k))"
      unfolding out_def using ck(1) buf2 p by simp
    have "buf ! ch ! (nat i + k) = after ! ch ! (nat i + k)"
    proof (cases "Suc m < length starts")
      case True
      then have "int k < d" using ck(3) by simp
      then have "nat i + k < nat (i + d)" using i0 by linarith
      then show ?thesis
        using kept ck(1) after2 by (intro nth_from_take) simp_all
    next
      case False
      then show ?thesis using buf_same by simp
    qed
    then show ?thesis using o by simp
  qed
  have nth_m: "starts ! m = int m * (chunk_size - overlap)"
    using i_eq by (simp add: i_def d_def)
  have nth_prev: "starts ! (m - 1) + (chunk_size - overlap) = starts ! m"
    using prev_next by (simp add: i_def d_def)
  show ?thesis
    apply (rule exI[of _ fade_in])
    apply (rule exI[of _ fade_out])
    apply (rule exI[of _ before])
    apply (rule exI[of _ after])
    apply (rule exI[of _ out])
    apply (intro conjI)
    subgoal using l1 .
    subgoal using l2 .
    subgoal using len_in .
    subgoal using len_out .
    subgoal using nth_m .
    subgoal using nth_prev .
    subgoal using loop_before .
    subgoal using step unfolding i_def .
    subgoal using loop_after .
    subgoal using run .
    subgoal using weights unfolding i_def by blast
    subgoal using written unfolding i_def by blast
    subgoal using link unfolding i_def d_def by blast
    subgoal using final unfolding i_def d_def by blast
    done
qed

theorem cross_fade_convex_witness:
  "\<exists>out. inference (Inr ()) (\<lambda>_ chunk. [replicate 10 (hd (hd chunk)), replicate 10 (hd (hd chunk))])
            (Inr [[1/4,0,0,0,3/4,0,0,0,0,0,0,0,0,0], [1/4,0,0,0,3/4,0,0,0,0,0,0,0,0,0]]) 10 6
          = Inr (out, 2)
      \<and> out ! 0 ! 5 = 1/2"
proof -
  let ?x = "[[1/4,0,0,0,3/4,0,0,0,0,0,0,0,0,0], [1/4,0,0,0,3/4,0,0,0,0,0,0,0,0,0::real]]"
  let ?recon = "\<lambda>(_::unit) chunk::real list list. [replicate 10 (hd (hd chunk)), replicate 10 (hd (hd chunk))]"
  let ?starts = "[0, 4::int]"
  have p1: "(0::int) \<le> 6" and p2: "(6::int) < 10" and p3: "(10::int) \<le> 14" by simp_all
  have p4: "length ?x = 2" by simp
  have p5: "\<forall>c \<in> set ?x. int (length c) = 14" by simp
  have p6: "\<And>x. length (?recon () x) = 2 \<and> (\<forall>c \<in> set (?recon () x). int (length c) = 10)"
    by simp
  have p7: "chunk_starts 14 10 6 = Inr ?starts" by (rule starts_14_10_6)
  have p8: "(0::nat) < 1" and p9: "1 < length ?starts" by simp_all
  note inst = cross_fade_convex [of 6 10 14 ?x ?recon "()" ?starts 1, OF p1 p2 p3 p4 p5 p6 p7 p8 p9]
  from inst obtain fade_in fade_out before after out where
      run: "inference (Inr ()) ?recon (Inr ?x) 10 6 = Inr (out, int (length ?starts))"
    and w: "\<forall>ch k. ch < 2 \<and> k < nat (6 div 2) \<longrightarrow>
          after ! ch ! (nat (?starts ! 1) + k)
            = fade_out ! k * before ! ch ! (nat (?starts ! 1) + k)
              + fade_in ! k * ?recon () (map (\<lambda>c. py_slice c (?starts ! 1) (?starts ! 1 + 10)) ?x) ! ch ! k
        \<and> fade_in ! k + fade_out ! k = 1
        \<and> 0 \<le> fade_in ! k \<and> 0 \<le> fade_out ! k
        \<and> fade_in ! k * (real_of_int (6 div 2) - 1) = (if (6::int) div 2 = 1 then 0 else real k)"
    and l: "\<forall>ch k. ch < 2 \<and> k < nat (6 div 2) \<and> (6::int) div 2 \<le> 10 - 6 + int k \<longrightarrow>
          before ! ch ! (nat (?starts ! 1) + k)
            = ?recon () (map (\<lambda>c. py_slice c (?starts ! (1 - 1)) (?starts ! (1 - 1) + 10)) ?x)
                ! ch ! (nat (10 - 6) + k)"
    and f: "\<forall>ch k. ch < 2 \<and> k < nat (6 div 2)
            \<and> (Suc 1 < length ?starts \<longrightarrow> int k < 10 - 6) \<longrightarrow>
          out ! ch ! (nat (?starts ! 1) + k) = clamp (- 1) 1 (after ! ch ! (nat (?starts ! 1) + k))"
    by blast
  have new: "?recon () (map (\<lambda>c. py_slice c 4 14) ?x) ! 0 ! 1 = 3/4"
    by (simp add: py_slice_def norm_index_def numeral_eq_Suc)
  have old: "?recon () (map (\<lambda>c. py_slice c 0 10) ?x) ! 0 ! 5 = 1/4"
    by (simp add: py_slice_def norm_index_def numeral_eq_Suc)
  have "after ! 0 ! (nat (?starts ! 1) + 1)
            = fade_out ! 1 * before ! 0 ! (nat (?starts ! 1) + 1)
              + fade_in ! 1 * ?recon () (map (\<lambda>c. py_slice c (?starts ! 1) (?starts ! 1 + 10)) ?x) ! 0 ! 1
        \<and> fade_in ! 1 + fade_out ! 1 = 1
        \<and> fade_in ! 1 * (real_of_int (6 div 2) - 1) = (if (6::int) div 2 = 1 then 0 else real 1)"
    using w[rule_format, of 0 1] by simp
  then have mix: "after ! 0 ! 5 = fade_out ! 1 * before ! 0 ! 5 + fade_in ! 1 * (3/4)"
    and sum1: "fade_in ! 1 + fade_out ! 1 = 1"
    and lin: "fade_in ! 1 * 2 = 1"
    using new by simp_all
  have "before ! 0 ! (nat (?starts ! 1) + 1)
            = ?recon () (map (\<lambda>c. py_slice c (?starts ! (1 - 1)) (?starts ! (1 - 1) + 10)) ?x)
                ! 0 ! (nat (10 - 6) + 1)"
    using l[rule_format, of 0 1] by simp
  then have prev: "before ! 0 ! 5 = 1/4"
    using old by simp
  have "out ! 0 ! (nat (?starts ! 1) + 1) = clamp (- 1) 1 (after ! 0 ! (nat (?starts ! 1) + 1))"
    using f[rule_format, of 0 1] by simp
  then have fin: "out ! 0 ! 5 = clamp (- 1) 1 (after ! 0 ! 5)" by simp
  from lin have fi: "fade_in ! 1 = 1 / 2" by simp
  with sum1 have fo: "fade_out ! 1 = 1 / 2" by simp
  have "after ! 0 ! 5 = 1/2" unfolding mix prev fi fo by simp
  then have "out ! 0 ! 5 = 1/2" using fin by (simp add: clamp_def)
  moreover have "inference (Inr ()) ?recon (Inr ?x) 10 6 = Inr (out, 2)"
    using run by simp
  ultimately show ?thesis by blast
qed

text \<open>
  Claim C3 as stated calls the existing buffer content of the cross-fade region the
  previous chunk's reconstruction, for every chunk after the first. That holds only at the
  positions that the previous chunk wrote directly; where \<open>overlap div 2\<close> exceeds the
  stride the head of the region holds older content. Two runs with \<open>chunk_size = 10\<close> and
  \<open>overlap = 8\<close> (stride 2, cross-fade length 4, fade-in ramp 0, 1/3, 2/3, 1). In the first,
  on 12 samples, every reconstruction is constantly 1: sample 3, in the cross-fade region
  \<open>[2, 6)\<close> of the second chunk, is 1/3, since the buffer holds there the zero that the
  first chunk left. In the second, on 14 samples, the reconstruction of a chunk is
  constantly the chunk's first input sample, so that it is 1 for the first chunk and 0 for
  the second and the third: sample 4, in the cross-fade region \<open>[4, 8)\<close> of the third
  chunk, is 1/3, which is what the cross-fade of the second chunk left of the first chunk's
  reconstruction. Neither value is a convex combination of the reconstructions of the
  previous and of the new chunk, which agree (1 and 1, 0 and 0).
\<close>

theorem cross_fade_not_of_previous_chunk:
  "inference (Inr ()) (\<lambda>_ _. [[1,1,1,1,1,1,1,1,1,1], [1,1,1,1,1,1,1,1,1,1]])
     (Inr [[0,0,0,0,0,0,0,0,0,0,0,0], [0,0,0,0,0,0,0,0,0,0,0,0]]) 10 8
   = Inr ([[0,0,0,1/3,1,1,1,1,1,1,1,1], [0,0,0,1/3,1,1,1,1,1,1,1,1]], 2)
   \<and> inference (Inr ()) (\<lambda>_. map (\<lambda>c. replicate 10 (hd c)))
     (Inr [[1,0,0,0,0,0,0,0,0,0,0,0,0,0], [1,0,0,0,0,0,0,0,0,0,0,0,0,0]]) 10 8
   = Inr ([[0,0,0,0,1/3,0,0,0,0,0,0,0,0,0], [0,0,0,0,1/3,0,0,0,0,0,0,0,0,0]], 3)"
  using ones_run held_run by (rule conjI)

section \<open>Segments of the dataset\<close>

lemma segment_specs_exact_length:
  assumes "segment_length \<noteq> 0" "hop_length \<noteq> 0"
    and "int (n_frames mixture_spec) = segment_length div hop_length"
  shows "segment_specs True segment_length hop_length seed mixture_spec vocals_spec = Inl RandintError"
  using assms by (simp add: segment_specs_def py_floordiv_def randint_def)

lemma stats_silence:
  assumes "2 \<le> n"
  shows "tensor_mean [replicate n 0] = Some 0" "tensor_std [replicate n 0] = Some 0"
  using assms by (simp_all add: tensor_mean_def tensor_std_def Let_def sum_list_replicate)

lemma magnitude_normalized_silence:
  assumes "2 \<le> n"
  shows "magnitude_normalized [[replicate n 0], [replicate n 0]] = Inr [[replicate n 0], [replicate n 0]]"
proof -
  have "normalize_channel [replicate n 0] = Some ([replicate n 0], 0, 0)"
    by (simp add: normalize_channel_def stats_silence[OF assms])
  then have "normalize [[replicate n 0], [replicate n 0]]
      = Some [([replicate n 0], 0, 0), ([replicate n 0], 0, 0)]"
    by (simp add: normalize_def)
  moreover have "map3 cmod [[replicate n 0], [replicate n 0]] = [[replicate n 0], [replicate n 0]]"
    by (simp add: map3_def)
  ultimately show ?thesis by (simp add: magnitude_normalized_def)
qed

text \<open>
  Claim C5 says that a track with at most the requested number of frames is padded and that
  item access never fails, and that every valid window start can be drawn. The source
  takes the window branch for \<open>frames \<ge> segment_length // hop_length\<close> and draws the
  start with \<^verbatim>\<open>torch.randint(0, frames - segment_length // hop_length, (1,))\<close>, whose upper
  bound is exclusive. With the defaults (352800 and 1024, 344 frames) a spectrogram of
  exactly 344 frames asks for a draw from the empty range and the access fails, for every
  state of the generator: below for a silent 2-channel track of 351232 samples whose
  transform has 344 frames, and for the segmenting block alone. For a spectrogram of 345
  frames only the start 0 is ever drawn, never the other valid start 1.
\<close>

theorem getitem_fails_at_exact_length:
  "(\<forall>seed. getitem (\<lambda>_. [[replicate 344 0], [replicate 344 0]]) True 352800 1024 seed
        (Inr [replicate 351232 0, replicate 351232 0]) (Inr [replicate 351232 0, replicate 351232 0])
      = Inl RandintError)
   \<and> (\<forall>seed. segment_specs True 352800 1024 seed
        [[replicate 344 0], [replicate 344 0]] [[replicate 344 0], [replicate 344 0]]
      = Inl RandintError)
   \<and> 352800 div 1024 = (344::int)
   \<and> (\<forall>seed. randint seed 0 (345 - 352800 div 1024) = Inr 0)"
proof -
  have seg: "segment_specs True 352800 1024 seed
        [[replicate 344 0], [replicate 344 0]] [[replicate 344 0], [replicate 344 0]]
      = Inl RandintError" for seed
    by (simp add: segment_specs_exact_length n_frames_def)
  have norm: "magnitude_normalized [[replicate 344 0], [replicate 344 0]]
     = Inr [[replicate 344 0], [replicate 344 0]]"
    by (rule magnitude_normalized_silence) simp
  have item: "getitem (\<lambda>_. [[replicate 344 0], [replicate 344 0]]) True 352800 1024 seed
        (Inr [replicate 351232 0, replicate 351232 0]) (Inr [replicate 351232 0, replicate 351232 0])
      = Inl RandintError" for seed
    unfolding getitem_def Let_def by (simp add: n_channels_def norm seg)
  have draw: "randint seed 0 (345 - 352800 div 1024) = Inr 0" for seed
    by (simp add: randint_def)
  from item seg draw show ?thesis by simp
qed

theorem getitem_fails_at_exact_length_witness:
  "getitem (\<lambda>_. [[replicate 344 0], [replicate 344 0]]) True 352800 1024 0
        (Inr [replicate 351232 0, replicate 351232 0]) (Inr [replicate 351232 0, replicate 351232 0])
      = Inl RandintError"
  using getitem_fails_at_exact_length by blast

section \<open>Training targets\<close>

lemma cmod_imaginary: "cmod (Complex 0 r) = \<bar>r\<bar>"
  by (simp add: cmod_def)

lemma Arg_imaginary: "0 < r \<Longrightarrow> Arg (Complex 0 r) = pi / 2"
proof (rule cis_Arg_unique)
  assume r: "0 < r"
  show "sgn (Complex 0 r) = cis (pi / 2)"
    using r by (simp add: sgn_eq cmod_imaginary complex_eq_iff)
  show "- pi < pi / 2" "pi / 2 \<le> pi"
    using pi_gt_zero by linarith+
qed

lemma sqrt_one: "sqrt 1 = 1"
  by simp

lemma stats_123:
  "tensor_mean [[1, 2, 3]] = Some 2"
  "tensor_std [[1, 2, 3]] = Some 1"
  by (simp_all add: tensor_mean_def tensor_std_def Let_def)

lemma stats_5111:
  "tensor_mean [[5, 1], [1, 1]] = Some 2"
  "tensor_std [[5, 1], [1, 1]] = Some 2"
  by (simp_all add: tensor_mean_def tensor_std_def Let_def)

text \<open>
  Claim C6 says that the training loop takes the absolute value and the angle of the
  target's complex spectrogram. The dataset has already replaced that spectrogram by its
  normalised magnitude, a real tensor, and it is this tensor that reaches
  \<^verbatim>\<open>torch.abs\<close> and \<^verbatim>\<open>torch.angle\<close>. For a target whose complex spectrogram is
  \<open>[i, 2i, 3i]\<close> in both channels (magnitudes 1, 2, 3, phase \<open>\<pi>/2\<close> everywhere) the
  dataset returns \<open>[-1/(1 + 1e-8), 0, 1/(1 + 1e-8)]\<close>, and the loop computes the magnitude
  target \<open>[1/(1 + 1e-8), 0, 1/(1 + 1e-8)]\<close> and the phase target \<open>[\<pi>, 0, 0]\<close>.
  Likewise for a target with two frequency bins and two frames, \<open>[[5i, i], [i, i]]\<close> in
  both channels (magnitudes 5, 1, 1, 1, of mean 2 and deviation 2, phase \<open>\<pi>/2\<close>
  everywhere): the dataset returns \<open>[[3/(2 + 1e-8), -1/(2 + 1e-8)], [-1/(2 + 1e-8), -1/(2 + 1e-8)]]\<close>,
  and the loop computes the magnitude target
  \<open>[[3/(2 + 1e-8), 1/(2 + 1e-8)], [1/(2 + 1e-8), 1/(2 + 1e-8)]]\<close> and the phase target
  \<open>[[0, \<pi>], [\<pi>, \<pi>]]\<close>.
\<close>

theorem training_targets_from_normalized_magnitude:
  "magnitude_normalized [[[Complex 0 1, Complex 0 2, Complex 0 3]], [[Complex 0 1, Complex 0 2, Complex 0 3]]]
     = Inr [[[- 1 / (1 + epsilon), 0, 1 / (1 + epsilon)]], [[- 1 / (1 + epsilon), 0, 1 / (1 + epsilon)]]]
   \<and> target_mag [[[- 1 / (1 + epsilon), 0, 1 / (1 + epsilon)]], [[- 1 / (1 + epsilon), 0, 1 / (1 + epsilon)]]]
     = [[[1 / (1 + epsilon), 0, 1 / (1 + epsilon)]], [[1 / (1 + epsilon), 0, 1 / (1 + epsilon)]]]
   \<and> target_phase [[[- 1 / (1 + epsilon), 0, 1 / (1 + epsilon)]], [[- 1 / (1 + epsilon), 0, 1 / (1 + epsilon)]]]
     = [[[pi, 0, 0]], [[pi, 0, 0]]]
   \<and> map3 cmod [[[Complex 0 1, Complex 0 2, Complex 0 3]], [[Complex 0 1, Complex 0 2, Complex 0 3]]]
     = [[[1, 2, 3]], [[1, 2, 3]]]
   \<and> map3 Arg [[[Complex 0 1, Complex 0 2, Complex 0 3]], [[Complex 0 1, Complex 0 2, Complex 0 3]]]
     = [[[pi / 2, pi / 2, pi / 2]], [[pi / 2, pi / 2, pi / 2]]]
   \<and> magnitude_normalized [[[Complex 0 5, Complex 0 1], [Complex 0 1, Complex 0 1]], [[Complex 0 5, Complex 0 1], [Complex 0 1, Complex 0 1]]]
     = Inr [[[3 / (2 + epsilon), - 1 / (2 + epsilon)], [- 1 / (2 + epsilon), - 1 / (2 + epsilon)]], [[3 / (2 + epsilon), - 1 / (2 + epsilon)], [- 1 / (2 + epsilon), - 1 / (2 + epsilon)]]]
   \<and> target_mag [[[3 / (2 + epsilon), - 1 / (2 + epsilon)], [- 1 / (2 + epsilon), - 1 / (2 + epsilon)]], [[3 / (2 + epsilon), - 1 / (2 + epsilon)], [- 1 / (2 + epsilon), - 1 / (2 + epsilon)]]]
     = [[[3 / (2 + epsilon), 1 / (2 + epsilon)], [1 / (2 + epsilon), 1 / (2 + epsilon)]], [[3 / (2 + epsilon), 1 / (2 + epsilon)], [1 / (2 + epsilon), 1 / (2 + epsilon)]]]
   \<and> target_phase [[[3 / (2 + epsilon), - 1 / (2 + epsilon)], [- 1 / (2 + epsilon), - 1 / (2 + epsilon)]], [[3 / (2 + epsilon), - 1 / (2 + epsilon)], [- 1 / (2 + epsilon), - 1 / (2 + epsilon)]]]
     = [[[0, pi], [pi, pi]], [[0, pi], [pi, pi]]]
   \<and> map3 cmod [[[Complex 0 5, Complex 0 1], [Complex 0 1, Complex 0 1]], [[Complex 0 5, Complex 0 1], [Complex 0 1, Complex 0 1]]]
     = [[[5, 1], [1, 1]], [[5, 1], [1, 1]]]
   \<and> map3 Arg [[[Complex 0 5, Complex 0 1], [Complex 0 1, Complex 0 1]], [[Complex 0 5, Complex 0 1], [Complex 0 1, Complex 0 1]]]
     = [[[pi / 2, pi / 2], [pi / 2, pi / 2]], [[pi / 2, pi / 2], [pi / 2, pi / 2]]]"
proof -
  have e: "0 < 1 + epsilon" "0 < epsilon" by (simp_all add: epsilon_def)
  have mags: "map3 cmod [[[Complex 0 1, Complex 0 2, Complex 0 3]], [[Complex 0 1, Complex 0 2, Complex 0 3]]]
     = [[[1, 2, 3]], [[1, 2, 3]]]"
    by (simp add: map3_def cmod_imaginary)
  have norm: "magnitude_normalized [[[Complex 0 1, Complex 0 2, Complex 0 3]], [[Complex 0 1, Complex 0 2, Complex 0 3]]]
     = Inr [[[- 1 / (1 + epsilon), 0, 1 / (1 + epsilon)]], [[- 1 / (1 + epsilon), 0, 1 / (1 + epsilon)]]]"
    unfolding magnitude_normalized_def mags
    by (simp add: normalize_def normalize_channel_def stats_123)
  have tm: "target_mag [[[- 1 / (1 + epsilon), 0, 1 / (1 + epsilon)]], [[- 1 / (1 + epsilon), 0, 1 / (1 + epsilon)]]]
     = [[[1 / (1 + epsilon), 0, 1 / (1 + epsilon)]], [[1 / (1 + epsilon), 0, 1 / (1 + epsilon)]]]"
    using e by (simp add: target_mag_def map3_def abs_if)
  have neg: "- 1 / (1 + epsilon) < 0" using e by simp
  have pos: "\<not> 1 / (1 + epsilon) < 0" using e by simp
  have tp: "target_phase [[[- 1 / (1 + epsilon), 0, 1 / (1 + epsilon)]], [[- 1 / (1 + epsilon), 0, 1 / (1 + epsilon)]]]
     = [[[pi, 0, 0]], [[pi, 0, 0]]]"
    using neg pos by (simp add: target_phase_def map3_def angle_real_def)
  have args: "map3 Arg [[[Complex 0 1, Complex 0 2, Complex 0 3]], [[Complex 0 1, Complex 0 2, Complex 0 3]]]
     = [[[pi / 2, pi / 2, pi / 2]], [[pi / 2, pi / 2, pi / 2]]]"
    by (simp add: map3_def Arg_imaginary)
  have e2: "0 < 2 + epsilon" using e by simp
  have mags2: "map3 cmod [[[Complex 0 5, Complex 0 1], [Complex 0 1, Complex 0 1]], [[Complex 0 5, Complex 0 1], [Complex 0 1, Complex 0 1]]]
     = [[[5, 1], [1, 1]], [[5, 1], [1, 1]]]"
    by (simp add: map3_def cmod_imaginary)
  have norm2: "magnitude_normalized [[[Complex 0 5, Complex 0 1], [Complex 0 1, Complex 0 1]], [[Complex 0 5, Complex 0 1], [Complex 0 1, Complex 0 1]]]
     = Inr [[[3 / (2 + epsilon), - 1 / (2 + epsilon)], [- 1 / (2 + epsilon), - 1 / (2 + epsilon)]], [[3 / (2 + epsilon), - 1 / (2 + epsilon)], [- 1 / (2 + epsilon), - 1 / (2 + epsilon)]]]"
    unfolding magnitude_normalized_def mags2
    by (simp add: normalize_def normalize_channel_def stats_5111)
  have tm2: "target_mag [[[3 / (2 + epsilon), - 1 / (2 + epsilon)], [- 1 / (2 + epsilon), - 1 / (2 + epsilon)]], [[3 / (2 + epsilon), - 1 / (2 + epsilon)], [- 1 / (2 + epsilon), - 1 / (2 + epsilon)]]]
     = [[[3 / (2 + epsilon), 1 / (2 + epsilon)], [1 / (2 + epsilon), 1 / (2 + epsilon)]], [[3 / (2 + epsilon), 1 / (2 + epsilon)], [1 / (2 + epsilon), 1 / (2 + epsilon)]]]"
    using e2 by (simp add: target_mag_def map3_def abs_if)
  have neg2: "- 1 / (2 + epsilon) < 0" using e2 by simp
  have pos2: "\<not> 3 / (2 + epsilon) < 0" using e2 by simp
  have tp2: "target_phase [[[3 / (2 + epsilon), - 1 / (2 + epsilon)], [- 1 / (2 + epsilon), - 1 / (2 + epsilon)]], [[3 / (2 + epsilon), - 1 / (2 + epsilon)], [- 1 / (2 + epsilon), - 1 / (2 + epsilon)]]]
     = [[[0, pi], [pi, pi]], [[0, pi], [pi, pi]]]"
    using neg2 pos2 by (simp add: target_phase_def map3_def angle_real_def)
  have args2: "map3 Arg [[[Complex 0 5, Complex 0 1], [Complex 0 1, Complex 0 1]], [[Complex 0 5, Complex 0 1], [Complex 0 1, Complex 0 1]]]
     = [[[pi / 2, pi / 2], [pi / 2, pi / 2]], [[pi / 2, pi / 2], [pi / 2, pi / 2]]]"
    by (simp add: map3_def Arg_imaginary)
  show ?thesis
    apply (intro conjI)
    subgoal using norm .
    subgoal using tm .
    subgoal using tp .
    subgoal using mags .
    subgoal using args .
    subgoal using norm2 .
    subgoal using tm2 .
    subgoal using tp2 .
    subgoal using mags2 .
    subgoal using args2 .
    done
qed

section \<open>Checkpoints\<close>

lemma train_step_step: "step (train_step forward optimise st batch) = step st + 1"
  by (cases batch) (simp add: train_step_def Let_def split: prod.splits)

lemma trajectory_steps:
  "map step (trajectory forward optimise st batches) = map (\<lambda>k. step st + 1 + int k) [0..<length batches]"
proof (induction batches arbitrary: st)
  case Nil
  then show ?case by simp
next
  case (Cons b bs)
  have "map (\<lambda>k. step st + 1 + int k) [0..<length (b # bs)]
      = (step st + 1) # map (\<lambda>k. step st + 1 + int (Suc k)) [0..<length bs]"
    by (simp add: upt_conv_Cons map_Suc_upt[symmetric] del: upt_Suc)
  also have "\<dots> = (step st + 1) # map (\<lambda>k. step (train_step forward optimise st b) + 1 + int k) [0..<length bs]"
    by (simp add: train_step_step)
  finally show ?case using Cons.IH[of "train_step forward optimise st b"]
    by (simp add: train_step_step)
qed

lemma trajectory_length: "length (trajectory forward optimise st batches) = length batches"
  by (induction batches arbitrary: st) simp_all

lemma train_loop_run:
  assumes "checkpoint_steps \<noteq> 0"
  shows "train_loop forward optimise checkpoint_steps st files batches
       = (files @ map (\<lambda>s. (checkpoint_name (step s), checkpoint_of s))
                    (filter (\<lambda>s. checkpoint_steps dvd step s) (trajectory forward optimise st batches)),
          Inr (last (st # trajectory forward optimise st batches)))"
proof (induction batches arbitrary: st files)
  case Nil
  then show ?case by simp
next
  case (Cons b bs)
  define st' where "st' = train_step forward optimise st b"
  have m: "py_mod (step st') checkpoint_steps = Inr (step st' mod checkpoint_steps)"
    using assms by (simp add: py_mod_def)
  have d: "(step st' mod checkpoint_steps = 0) = (checkpoint_steps dvd step st')"
    by (simp add: dvd_eq_mod_eq_0)
  show ?case
  proof (cases "checkpoint_steps dvd step st'")
    case True
    then show ?thesis
      using Cons.IH[of st' "files @ [(checkpoint_name (step st'), checkpoint_of st')]"] m d
      by (simp add: st'_def[symmetric] Let_def)
  next
    case False
    then show ?thesis
      using Cons.IH[of st' files] m d
      by (simp add: st'_def[symmetric] Let_def)
  qed
qed

lemma train_loop_zero:
  "train_loop forward optimise 0 st files (batch # rest) = (files, Inl ZeroDivisionError)"
  by (simp add: py_mod_def Let_def)

lemma resume_checkpoint_of: "resume (checkpoint_of st) = Inr (st :: ('m, 'o) train_state)"
  by (simp add: resume_def checkpoint_of_def)

lemma dom_checkpoint_of:
  "dom (checkpoint_of st) = {''step'', ''model_state_dict'', ''optimizer_state_dict'', ''avg_loss'', ''loss_log''}"
  by (auto simp: checkpoint_of_def)

text \<open>
  Claim C7. A checkpoint holds exactly the five fields step counter, model parameters,
  optimiser state, running average loss and loss history, and resuming from the checkpoint
  of a state restores that state, all five fields as they were when it was saved. In a run
  from scratch the step counter after the \<open>k\<close>-th batch is \<open>k\<close>. A run with
  \<open>checkpoint_steps \<noteq> 0\<close> writes, in order, one checkpoint for each state whose step
  counter (which is positive) is a multiple of \<open>checkpoint_steps\<close>, named after the step
  and holding that state, and no other checkpoint; then the loss log. With
  \<open>checkpoint_steps = 0\<close> the first checkpoint test divides by zero and nothing is
  written. A run resumed from the checkpoint of a state continues from that state,
  whatever model and optimiser were passed in.
\<close>

theorem checkpoint_round_trip:
  "resume (checkpoint_of st) = Inr st
   \<and> dom (checkpoint_of st)
       = {''step'', ''model_state_dict'', ''optimizer_state_dict'', ''avg_loss'', ''loss_log''}
   \<and> map step (trajectory forward optimise (initial_state model optimizer) batches)
       = map (\<lambda>k. int k + 1) [0..<length batches]
   \<and> (checkpoint_steps \<noteq> 0 \<longrightarrow>
        train forward optimise model optimizer batches checkpoint_steps None
        = (map (\<lambda>s. (checkpoint_name (step s), checkpoint_of s))
             (filter (\<lambda>s. checkpoint_steps dvd step s)
                (trajectory forward optimise (initial_state model optimizer) batches))
           @ [(''loss_log.pt'',
               [''loss_log'' \<mapsto> VFloats (loss_log (last (initial_state model optimizer
                    # trajectory forward optimise (initial_state model optimizer) batches)))])],
           Inr (last (initial_state model optimizer
                    # trajectory forward optimise (initial_state model optimizer) batches))))
   \<and> (batches \<noteq> [] \<longrightarrow>
        train forward optimise model optimizer batches 0 None = ([], Inl ZeroDivisionError))
   \<and> (checkpoint_steps \<noteq> 0 \<longrightarrow>
        train forward optimise model optimizer batches checkpoint_steps (Some (Inr (checkpoint_of st)))
        = (map (\<lambda>s. (checkpoint_name (step s), checkpoint_of s))
             (filter (\<lambda>s. checkpoint_steps dvd step s) (trajectory forward optimise st batches))
           @ [(''loss_log.pt'',
               [''loss_log'' \<mapsto> VFloats (loss_log (last (st # trajectory forward optimise st batches)))])],
           Inr (last (st # trajectory forward optimise st batches))))"
proof -
  have steps: "map step (trajectory forward optimise (initial_state model optimizer) batches)
       = map (\<lambda>k. int k + 1) [0..<length batches]"
    using trajectory_steps[of forward optimise "initial_state model optimizer" batches]
    by (simp add: initial_state_def add.commute)
  have scratch: "train forward optimise model optimizer batches checkpoint_steps None
        = (map (\<lambda>s. (checkpoint_name (step s), checkpoint_of s))
             (filter (\<lambda>s. checkpoint_steps dvd step s)
                (trajectory forward optimise (initial_state model optimizer) batches))
           @ [(''loss_log.pt'',
               [''loss_log'' \<mapsto> VFloats (loss_log (last (initial_state model optimizer
                    # trajectory forward optimise (initial_state model optimizer) batches)))])],
           Inr (last (initial_state model optimizer
                    # trajectory forward optimise (initial_state model optimizer) batches)))"
    if "checkpoint_steps \<noteq> 0"
    unfolding train_def Let_def by (simp add: train_loop_run[OF that])
  have zero: "train forward optimise model optimizer batches 0 None = ([], Inl ZeroDivisionError)"
    if "batches \<noteq> []"
  proof -
    from that obtain b bs where "batches = b # bs" by (auto simp: neq_Nil_conv)
    then have "train_loop forward optimise 0 (initial_state model optimizer) [] batches
        = ([], Inl ZeroDivisionError)"
      by (simp only: train_loop_zero)
    then show ?thesis
      unfolding train_def Let_def by simp
  qed
  have resumed: "train forward optimise model optimizer batches checkpoint_steps (Some (Inr (checkpoint_of st)))
        = (map (\<lambda>s. (checkpoint_name (step s), checkpoint_of s))
             (filter (\<lambda>s. checkpoint_steps dvd step s) (trajectory forward optimise st batches))
           @ [(''loss_log.pt'',
               [''loss_log'' \<mapsto> VFloats (loss_log (last (st # trajectory forward optimise st batches)))])],
           Inr (last (st # trajectory forward optimise st batches)))"
    if "checkpoint_steps \<noteq> 0"
    unfolding train_def Let_def by (simp add: resume_checkpoint_of train_loop_run[OF that])
  show ?thesis
    using resume_checkpoint_of[of st] dom_checkpoint_of[of st] steps scratch zero resumed
    by blast
qed

theorem checkpoint_round_trip_witness:
  "\<exists>files st.
      train (\<lambda>m x. (x, x)) (\<lambda>m opt x y z. (m, opt)) () () [([[[1]]], [[[1]]]), ([[[1]]], [[[1]]])] 2 None
        = (files, Inr st)
    \<and> step st = 2
    \<and> length files = 2
    \<and> fst (files ! 0) = checkpoint_name 2
    \<and> resume (snd (files ! 0)) = Inr st"
proof -
  let ?fw = "\<lambda>(m::unit) (x::spec_real). (x, x)"
  let ?op = "\<lambda>(m::unit) (opt::unit) (x::spec_real) (y::spec_real) (z::spec_real). (m, opt)"
  let ?b = "([[[1]]], [[[1]]]) :: spec_real \<times> spec_real"
  define s0 where "s0 = initial_state () ()"
  define s1 where "s1 = train_step ?fw ?op s0 ?b"
  define s2 where "s2 = train_step ?fw ?op s1 ?b"
  have st1: "step s1 = 1" and st2: "step s2 = 2"
    by (simp_all add: s1_def s2_def s0_def train_step_step initial_state_def)
  have traj: "trajectory ?fw ?op s0 [?b, ?b] = [s1, s2]"
    by (simp add: s1_def s2_def)
  note inst = checkpoint_round_trip [of s2 ?fw ?op "()" "()" "[?b, ?b]" 2]
  have nz: "(2::int) \<noteq> 0" by simp
  note scratch = inst [THEN conjunct2, THEN conjunct2, THEN conjunct2, THEN conjunct1, rule_format, OF nz]
  have flt: "filter (\<lambda>s. (2::int) dvd step s) [s1, s2] = [s2]"
    by (simp add: st1 st2)
  have run: "train ?fw ?op () () [?b, ?b] 2 None
      = ([(checkpoint_name 2, checkpoint_of s2),
          (''loss_log.pt'', [''loss_log'' \<mapsto> VFloats (loss_log s2)])], Inr s2)"
    using scratch unfolding s0_def[symmetric] traj flt by (simp add: st2)
  from inst have restored: "resume (checkpoint_of s2) = Inr s2" by blast
  show ?thesis
    apply (rule exI[of _ "[(checkpoint_name 2, checkpoint_of s2),
          (''loss_log.pt'', [''loss_log'' \<mapsto> VFloats (loss_log s2)])]"])
    apply (rule exI[of _ s2])
    using run st2 restored by simp
qed

end
